theory Spec2Isabelle
  imports Main "HOL-Library.Word"
begin

section \<open>dentls: listing or unlinking the regular files of one directory\<close>

text \<open>
  A shallow embedding of \<^verbatim>\<open>src/dentls.c\<close>. The process is a state record that every
  function takes and returns; \<^verbatim>\<open>exit\<close> and the early \<^verbatim>\<open>return\<close>s of \<^verbatim>\<open>main\<close> are the
  left injection of a sum, carrying the exit status and the state at that moment.
  Everything the program does to the outside (both output streams, the system calls,
  \<^verbatim>\<open>sleep\<close>) is appended to one trace, so that the order between the streams is kept.
\<close>

subsection \<open>Strings and numbers\<close>

text \<open>
  \<^verbatim>\<open>strcmp\<close> of the C library: the bytes are compared as unsigned values, a proper
  prefix is smaller. Only the sign of the result is specified by C; the model returns
  \<open>-1\<close>, \<open>0\<close> or \<open>1\<close>.
\<close>

fun strcmp :: "string \<Rightarrow> string \<Rightarrow> int" where
  "strcmp [] [] = 0"
| "strcmp [] (y # ys) = - 1"
| "strcmp (x # xs) [] = 1"
| "strcmp (x # xs) (y # ys) =
     (if x = y then strcmp xs ys
      else if (of_char x :: nat) < of_char y then - 1 else 1)"

definition newline :: string where
  "newline = [CHR 0x0A]"

text \<open>Decimal digits, for the \<^verbatim>\<open>%lu\<close> and \<^verbatim>\<open>%d\<close> conversions of \<^verbatim>\<open>fprintf\<close>.\<close>

definition digit :: "nat \<Rightarrow> char" where
  "digit n = ''0123456789'' ! n"

function dec :: "nat \<Rightarrow> string" where
  "dec n = (if n < 10 then [digit n] else dec (n div 10) @ [digit (n mod 10)])"
  by pat_completeness auto
termination
  by (relation "measure id") auto

declare dec.simps [simp del]

definition dec_int :: "int \<Rightarrow> string" where
  "dec_int i = (if i < 0 then CHR ''-'' # dec (nat (- i)) else dec (nat i))"

subsection \<open>Data\<close>

text \<open>
  \<^verbatim>\<open>struct linux_dirent\<close>. The fields \<^verbatim>\<open>d_ino\<close>, \<^verbatim>\<open>d_off\<close> and \<^verbatim>\<open>d_reclen\<close> only place a
  record inside the buffer that \<^verbatim>\<open>getdents\<close> fills (the type tag is the last byte of
  the record, at \<^verbatim>\<open>d_reclen - 1\<close>); a buffer is modelled as the list of its records, so
  that the name and the type tag are what is left of a record.
\<close>

record linux_dirent =
  d_name :: string
  d_type :: "8 word"

definition DT_REG :: "8 word" where
  "DT_REG = 8"

text \<open>\<^verbatim>\<open>VISIT\<close> of \<^verbatim>\<open>search.h\<close>.\<close>

datatype VISIT = preorder | postorder | endorder | leaf

text \<open>
  The binary tree behind \<^verbatim>\<open>tsearch\<close> and \<^verbatim>\<open>twalk\<close>: \<open>Null\<close> is the \<^verbatim>\<open>NULL\<close> child.
\<close>

datatype 'a node = Null | Node "'a node" 'a "'a node"

text \<open>
  The tree stores no copy of a name: a key is the address of \<^verbatim>\<open>dent->d_name\<close> inside a
  buffer, here the address of the buffer and the index of the record in it.
\<close>

type_synonym name_ptr = "nat \<times> nat"

type_synonym errno = nat

definition ENOENT :: errno where "ENOENT = 2"
definition ENOMEM :: errno where "ENOMEM = 12"
definition EACCES :: errno where "EACCES = 13"

datatype event =
    Stdout string
  | Stderr string
  | Perror string errno
  | Sleep nat
  | Sys_access string
  | Sys_lstat string
  | Sys_open string
  | Sys_fchdir
  | Sys_getdents nat
  | Sys_unlink string
  | Sys_close

text \<open>One result of the \<^verbatim>\<open>getdents\<close> system call: \<open>-1\<close> with an error number, or the
  records written to the buffer (no record: the call returns \<open>0\<close>).\<close>

datatype getdents_result = GD_error errno | GD_records "linux_dirent list"

text \<open>
  The process: the globals of the program, the locals of \<^verbatim>\<open>main\<close> that outlive a
  statement, and the part of the machine the program touches. \<open>heap\<close> holds the
  \<^verbatim>\<open>getdents\<close> buffers by address; \<open>mem\<close> is the number of allocations that will still
  succeed; \<open>files\<close> are the names present in the directory the process has entered and
  \<open>undeletable\<close> the names whose removal the system refuses.
\<close>

record state =
  delete_count :: "64 word"
  show_progress :: "16 word"
  print_only :: "16 word"
  tree :: "name_ptr node"
  totalfiles :: "32 word"
  buffer :: nat
  dirent_buffers_list :: "nat list"
  errno_var :: errno
  heap :: "linux_dirent list list"
  mem :: nat
  files :: "string set"
  undeletable :: "string set"
  trace :: "event list"

text \<open>What the program is started with and what the system will answer.\<close>

record world =
  argv :: "string list"
  environ :: "string \<Rightarrow> string option"
  access_result :: "errno option"
  lstat_result :: "errno option"
  st_isdir :: bool
  open_result :: "errno option"
  fchdir_result :: "errno option"
  mem0 :: nat
  dents0 :: "getdents_result list"
  files0 :: "string set"
  undeletable0 :: "string set"

type_synonym 'a result = "(int \<times> state) + 'a"

definition progress_interval_minor :: "64 word" where
  "progress_interval_minor = 1000"

definition progress_interval_major :: "64 word" where
  "progress_interval_major = 50"

definition initial :: "world \<Rightarrow> state" where
  "initial w = \<lparr> delete_count = 0, show_progress = 0, print_only = 1, tree = Null,
     totalfiles = 0, buffer = 0, dirent_buffers_list = [], errno_var = 0, heap = [],
     mem = mem0 w, files = files0 w, undeletable = undeletable0 w, trace = [] \<rparr>"

subsection \<open>The system and the C library\<close>

definition emit :: "event \<Rightarrow> state \<Rightarrow> state" where
  "emit e s = s\<lparr>trace := trace s @ [e]\<rparr>"

definition exit_with :: "int \<Rightarrow> state \<Rightarrow> 'a result" where
  "exit_with c s = Inl (c, s)"

text \<open>\<^verbatim>\<open>perror\<close> writes its argument and the message of the current error number.\<close>

definition perror :: "string \<Rightarrow> state \<Rightarrow> state" where
  "perror msg s = emit (Perror msg (errno_var s)) s"

text \<open>\<^verbatim>\<open>unlink\<close> of a bare name, in the directory the process has entered.\<close>

definition unlink :: "string \<Rightarrow> state \<Rightarrow> int \<times> state" where
  "unlink name s =
     (let s1 = emit (Sys_unlink name) s in
      if name \<notin> files s then (- 1, s1\<lparr>errno_var := ENOENT\<rparr>)
      else if name \<in> undeletable s then (- 1, s1\<lparr>errno_var := EACCES\<rparr>)
      else (0, s1\<lparr>files := files s - {name}\<rparr>))"

text \<open>\<^verbatim>\<open>malloc\<close> of a \<^verbatim>\<open>getdents\<close> buffer: a fresh address, or \<^verbatim>\<open>NULL\<close>.\<close>

definition malloc :: "state \<Rightarrow> nat option \<times> state" where
  "malloc s =
     (if mem s = 0 then (None, s\<lparr>errno_var := ENOMEM\<rparr>)
      else (Some (length (heap s)), s\<lparr>mem := mem s - 1, heap := heap s @ [[]]\<rparr>))"

text \<open>The name a key points to.\<close>

definition deref :: "linux_dirent list list \<Rightarrow> name_ptr \<Rightarrow> string" where
  "deref h p = d_name (h ! fst p ! snd p)"

definition compare_fnames :: "linux_dirent list list \<Rightarrow> name_ptr \<Rightarrow> name_ptr \<Rightarrow> int" where
  "compare_fnames h key1 key2 = strcmp (deref h key1) (deref h key2)"

text \<open>
  \<^verbatim>\<open>tsearch(key, &root, compar)\<close> of the C library, as POSIX describes it (Knuth's
  algorithm T): the key is looked up along the comparisons; when it is found the tree
  is unchanged, otherwise a node is allocated where the search ended. The result is the
  new root and the allocations left, or \<open>None\<close> for the \<^verbatim>\<open>NULL\<close> of a failed allocation.
  An implementation may rebalance the tree as it grows (glibc keeps it red-black); POSIX
  leaves the shape open, and the model takes the plain search tree. The shape decides the
  order in which the walk meets the names, so what is stated about the walk is stated for
  every tree.
\<close>

fun tsearch :: "'a \<Rightarrow> 'a node \<Rightarrow> ('a \<Rightarrow> 'a \<Rightarrow> int) \<Rightarrow> nat \<Rightarrow> ('a node \<times> nat) option" where
  "tsearch key Null compar m =
     (if m = 0 then None else Some (Node Null key Null, m - 1))"
| "tsearch key (Node l k r) compar m =
     (let c = compar key k in
      if c = 0 then Some (Node l k r, m)
      else if c < 0 then
        (case tsearch key l compar m of
           None \<Rightarrow> None
         | Some (l', m') \<Rightarrow> Some (Node l' k r, m'))
      else
        (case tsearch key r compar m of
           None \<Rightarrow> None
         | Some (r', m') \<Rightarrow> Some (Node l k r', m')))"

text \<open>
  \<^verbatim>\<open>twalk(root, action)\<close> of the C library: a node without children is visited once, as
  \<open>leaf\<close>; any other node three times, as \<open>preorder\<close> before its left subtree,
  \<open>postorder\<close> between the subtrees and \<open>endorder\<close> after the right one. An action that
  exits ends the walk.
\<close>

fun trecurse :: "'a node \<Rightarrow> ('a \<Rightarrow> VISIT \<Rightarrow> nat \<Rightarrow> state \<Rightarrow> state result) \<Rightarrow> nat
    \<Rightarrow> state \<Rightarrow> state result" where
  "trecurse Null action level s = Inr s"
| "trecurse (Node l k r) action level s =
     (if l = Null \<and> r = Null then action k leaf level s
      else
        (case action k preorder level s of
           Inl x \<Rightarrow> Inl x
         | Inr s1 \<Rightarrow>
        (case trecurse l action (level + 1) s1 of
           Inl x \<Rightarrow> Inl x
         | Inr s2 \<Rightarrow>
        (case action k postorder level s2 of
           Inl x \<Rightarrow> Inl x
         | Inr s3 \<Rightarrow>
        (case trecurse r action (level + 1) s3 of
           Inl x \<Rightarrow> Inl x
         | Inr s4 \<Rightarrow> action k endorder level s4)))))"

definition twalk :: "'a node \<Rightarrow> ('a \<Rightarrow> VISIT \<Rightarrow> nat \<Rightarrow> state \<Rightarrow> state result)
    \<Rightarrow> state \<Rightarrow> state result" where
  "twalk root action s = trecurse root action 0 s"

subsection \<open>The program\<close>

text \<open>The statement both acting cases of \<^verbatim>\<open>walk_tree\<close> execute, with the value of \<^verbatim>\<open>rc\<close>.\<close>

definition print_or_unlink :: "name_ptr \<Rightarrow> state \<Rightarrow> int \<times> state" where
  "print_or_unlink node s =
     (let (rc, s1) =
        (if print_only s \<noteq> 0 then (0, emit (Stdout (deref (heap s) node @ newline)) s)
         else unlink (deref (heap s) node) s)
      in (rc, s1\<lparr>delete_count := delete_count s1 + 1\<rparr>))"

definition report_progress :: "state \<Rightarrow> state" where
  "report_progress s =
     (if delete_count s mod (progress_interval_minor * progress_interval_major) = 0 then
        emit (Stderr ((if delete_count s \<noteq> 0 then newline else []) @ dec (unat (delete_count s))))
          (emit (Sleep 1) s)
      else if delete_count s mod progress_interval_minor = 0 then emit (Stderr ''.'') s
      else s)"

definition walk_tree :: "name_ptr \<Rightarrow> VISIT \<Rightarrow> nat \<Rightarrow> state \<Rightarrow> state result" where
  "walk_tree node val lvl s =
     (case (case val of
              leaf \<Rightarrow> Some (print_or_unlink node s)
            | endorder \<Rightarrow> Some (print_or_unlink node s)
            | _ \<Rightarrow> None) of
        None \<Rightarrow> Inr s
      | Some (rc, s1) \<Rightarrow>
          if rc < 0 then
            exit_with 1
              (perror ''unlink problem''
                (emit (Stderr (''Failed to delete '' @ deref (heap s1) node)) s1))
          else if show_progress s1 \<noteq> 0 then Inr (report_progress s1)
          else Inr s1)"

text \<open>
  \<^verbatim>\<open>linked_list_prepend_override\<close>, called on \<^verbatim>\<open>&dirent_buffers_list\<close> only (its check of a
  \<^verbatim>\<open>NULL\<close> head pointer cannot fire): a list node is allocated and becomes the head.
\<close>

definition linked_list_prepend_override :: "nat \<Rightarrow> state \<Rightarrow> state result" where
  "linked_list_prepend_override data_ptr s =
     (if mem s = 0 then exit_with 1 (perror ''malloc'' (s\<lparr>errno_var := ENOMEM\<rparr>))
      else Inr (s\<lparr>mem := mem s - 1, dirent_buffers_list := data_ptr # dirent_buffers_list s\<rparr>))"

text \<open>\<^verbatim>\<open>free_linked_list\<close>: every buffer of the list and every list node is released.\<close>

fun free_linked_list :: "nat list \<Rightarrow> linux_dirent list list \<Rightarrow> linux_dirent list list" where
  "free_linked_list [] h = h"
| "free_linked_list (a # next) h = free_linked_list next (h[a := []])"

text \<open>
  The inner loop of \<^verbatim>\<open>main\<close>, over the records of the buffer just filled: \<open>i\<close> is the
  index of the record \<^verbatim>\<open>dent\<close> points to, the list holds that record and those after it.
\<close>

fun scan_records :: "linux_dirent list \<Rightarrow> nat \<Rightarrow> state \<Rightarrow> state result" where
  "scan_records [] i s = Inr s"
| "scan_records (dent # rest) i s =
     (if \<not> (strcmp ''.'' (d_name dent) = 0 \<or> strcmp ''..'' (d_name dent) = 0) then
        if d_type dent = DT_REG then
          (case tsearch (buffer s, i) (tree s) (compare_fnames (heap s)) (mem s) of
             None \<Rightarrow> exit_with 1 (emit (Stderr (''Cannot acquire resources for tree!'' @ newline)) s)
           | Some (t, m) \<Rightarrow>
               scan_records rest (i + 1)
                 (s\<lparr>tree := t, mem := m, totalfiles := totalfiles s + 1\<rparr>))
        else scan_records rest (i + 1) s
      else scan_records rest (i + 1) s)"

text \<open>
  The outer loop of \<^verbatim>\<open>main\<close>, over the answers the system gives to the successive
  \<^verbatim>\<open>getdents\<close> calls; past the last answer the directory is exhausted and the call
  returns \<open>0\<close>.
\<close>

fun getdents_loop :: "getdents_result list \<Rightarrow> state \<Rightarrow> state result" where
  "getdents_loop [] s = Inr (emit (Sys_getdents (buffer s)) s)"
| "getdents_loop (GD_error e # rest) s =
     exit_with 1 (perror ''getdents'' ((emit (Sys_getdents (buffer s)) s)\<lparr>errno_var := e\<rparr>))"
| "getdents_loop (GD_records recs # rest) s =
     (let s1 = emit (Sys_getdents (buffer s)) s in
      if recs = [] then Inr s1
      else
        (case scan_records recs 0 (s1\<lparr>heap := (heap s1)[buffer s1 := recs]\<rparr>) of
           Inl x \<Rightarrow> Inl x
         | Inr s2 \<Rightarrow>
        (case malloc s2 of
           (None, s3) \<Rightarrow> exit_with 1 (perror ''malloc failed'' s3)
         | (Some b, s3) \<Rightarrow>
        (case linked_list_prepend_override b (s3\<lparr>buffer := b\<rparr>) of
           Inl x \<Rightarrow> Inl x
         | Inr s4 \<Rightarrow> getdents_loop rest s4))))"

text \<open>Lines 139 to 150 of \<^verbatim>\<open>main\<close>: the directory argument.\<close>

definition check_args :: "world \<Rightarrow> state \<Rightarrow> state result" where
  "check_args w s =
     (if length (argv w) < 2 then
        exit_with 1 (emit (Stderr (''You must supply a valid directory path.'' @ newline)) s)
      else if (case argv w ! 1 of [] \<Rightarrow> True | c # _ \<Rightarrow> c = CHR ''-'' \<or> c \<noteq> CHR ''/'') then
        exit_with (- 1)
          (emit (Stderr (''  Env: Set DENTLS_PROGRESS to show progress on stderr.'' @ newline))
          (emit (Stderr (''  Env: Set DENTLS_DELETE=delete to delete instead of print.'' @ newline))
          (emit (Stderr (''  For safety, <directory> must be fully-qualified (i.e., start with /).'' @ newline))
          (emit (Stderr (''Usage: '' @ argv w ! 0 @ '' <directory>'' @ newline)) s))))
      else Inr s)"

text \<open>Lines 152 to 164: the two environment variables.\<close>

definition read_env :: "world \<Rightarrow> state \<Rightarrow> state result" where
  "read_env w s =
     (case (case environ w ''DENTLS_DELETE'' of
              None \<Rightarrow> Inr s
            | Some v \<Rightarrow>
                if strcmp v ''delete'' \<noteq> 0 then
                  exit_with 1
                    (emit (Stderr (''If you did not intend to run deletes, please unset the variable entirely.'' @ newline))
                    (emit (Stderr (''If you'' @ [CHR 0x27] @ ''d like to delete files, please set DENTLS_DELETE to ''
                        @ [CHR 0x27] @ ''delete'' @ [CHR 0x27] @ '', *EXACTLY*.'' @ newline)) s))
                else Inr (s\<lparr>print_only := 0\<rparr>)) of
        Inl x \<Rightarrow> Inl x
      | Inr s1 \<Rightarrow>
          if environ w ''DENTLS_PROGRESS'' \<noteq> None then Inr (s1\<lparr>show_progress := 1\<rparr>)
          else Inr s1)"

text \<open>A system call of the set-up that either succeeds or sets the error number, after
  which the program calls \<^verbatim>\<open>perror\<close> and exits.\<close>

definition syscall_or_die :: "event \<Rightarrow> errno option \<Rightarrow> string \<Rightarrow> state \<Rightarrow> state result" where
  "syscall_or_die ev res msg s =
     (case res of
        None \<Rightarrow> Inr (emit ev s)
      | Some e \<Rightarrow> exit_with 1 (perror msg ((emit ev s)\<lparr>errno_var := e\<rparr>)))"

text \<open>Lines 166 to 207: the checks of the path, the first buffer, the directory is
  opened and entered. The size of the buffers, twice \<^verbatim>\<open>st_size\<close>, does not enter the
  model: what \<^verbatim>\<open>getdents\<close> answers is given by the world.\<close>

definition open_directory :: "world \<Rightarrow> state \<Rightarrow> state result" where
  "open_directory w s =
     (let path = argv w ! 1 in
      case syscall_or_die (Sys_access path) (access_result w) ''Could not access directory'' s of
        Inl x \<Rightarrow> Inl x
      | Inr s1 \<Rightarrow>
     (case syscall_or_die (Sys_lstat path) (lstat_result w) ''Unable to lstat path'' s1 of
        Inl x \<Rightarrow> Inl x
      | Inr s2 \<Rightarrow>
      if \<not> st_isdir w then
        exit_with 1 (emit (Stderr (''The path '' @ path @ '' is not a directory.'' @ newline)) s2)
      else
     (case malloc s2 of
        (None, s3) \<Rightarrow> exit_with 1 (perror ''malloc failed'' s3)
      | (Some b, s3) \<Rightarrow>
     (case linked_list_prepend_override b (s3\<lparr>buffer := b\<rparr>) of
        Inl x \<Rightarrow> Inl x
      | Inr s4 \<Rightarrow>
     (case syscall_or_die (Sys_open path) (open_result w) ''Open error'' s4 of
        Inl x \<Rightarrow> Inl x
      | Inr s5 \<Rightarrow> syscall_or_die Sys_fchdir (fchdir_result w) ''fchdir'' s5)))))"

text \<open>Lines 241 to 248: the two status lines, the walk, the completion notice and the
  teardown. Falling off the end of \<^verbatim>\<open>main\<close> is exit status 0.\<close>

definition walk_and_finish :: "state \<Rightarrow> state result" where
  "walk_and_finish s =
     (let s1 = emit (Stderr (''Total files: '' @ dec_int (sint (totalfiles s)) @ newline)) s;
          s2 = emit (Stderr (''Performing '' @ (if print_only s1 \<noteq> 0 then ''print'' else ''delete'')
                 @ ''...'' @ newline)) s1
      in case twalk (tree s2) walk_tree s2 of
           Inl x \<Rightarrow> Inl x
         | Inr s3 \<Rightarrow>
             (let s4 = emit Sys_close (emit (Stderr (''Done'' @ newline)) s3) in
              Inr (s4\<lparr>heap := free_linked_list (dirent_buffers_list s4) (heap s4),
                     dirent_buffers_list := [], tree := Null\<rparr>)))"

definition main :: "world \<Rightarrow> int \<times> state" where
  "main w =
     (case check_args w (initial w) of
        Inl x \<Rightarrow> x
      | Inr s1 \<Rightarrow>
     (case read_env w s1 of
        Inl x \<Rightarrow> x
      | Inr s2 \<Rightarrow>
     (case open_directory w s2 of
        Inl x \<Rightarrow> x
      | Inr s3 \<Rightarrow>
     (case getdents_loop (dents0 w) s3 of
        Inl x \<Rightarrow> x
      | Inr s4 \<Rightarrow>
     (case walk_and_finish s4 of
        Inl x \<Rightarrow> x
      | Inr s5 \<Rightarrow> (0, s5))))))"

subsection \<open>What a run shows\<close>

text \<open>
  The state a phase of the program ends in, by exit or normally, and the parts of a trace:
  the actions of the walk (a name printed or a name unlinked), the primary stream, the
  names \<^verbatim>\<open>unlink\<close> was called on, the progress markers, the line with the total.
\<close>

definition last_state :: "state result \<Rightarrow> state" where
  "last_state r = (case r of Inl (c, s) \<Rightarrow> s | Inr s \<Rightarrow> s)"

definition is_action :: "event \<Rightarrow> bool" where
  "is_action e = (case e of Stdout x \<Rightarrow> True | Sys_unlink x \<Rightarrow> True | _ \<Rightarrow> False)"

definition actions :: "event list \<Rightarrow> event list" where
  "actions tr = filter is_action tr"

fun stdout_of :: "event list \<Rightarrow> string list" where
  "stdout_of [] = []"
| "stdout_of (Stdout x # tr) = x # stdout_of tr"
| "stdout_of (e # tr) = stdout_of tr"

fun unlinked :: "event list \<Rightarrow> string list" where
  "unlinked [] = []"
| "unlinked (Sys_unlink n # tr) = n # unlinked tr"
| "unlinked (e # tr) = unlinked tr"

definition is_progress :: "event \<Rightarrow> bool" where
  "is_progress e =
     (case e of
        Sleep n \<Rightarrow> True
      | Stderr x \<Rightarrow> x \<noteq> [] \<and> hd x \<in> set (''.0123456789'' @ newline)
      | _ \<Rightarrow> False)"

definition is_total_line :: "event \<Rightarrow> bool" where
  "is_total_line e = (case e of Stderr x \<Rightarrow> take 13 x = ''Total files: '' | _ \<Rightarrow> False)"

definition name_event :: "16 word \<Rightarrow> string \<Rightarrow> event" where
  "name_event p n = (if p \<noteq> 0 then Stdout (n @ newline) else Sys_unlink n)"

definition action_event :: "state \<Rightarrow> name_ptr \<Rightarrow> event" where
  "action_event s k =
     (if print_only s \<noteq> 0 then Stdout (deref (heap s) k @ newline)
      else Sys_unlink (deref (heap s) k))"

definition total_line :: "32 word \<Rightarrow> event" where
  "total_line n = Stderr (''Total files: '' @ dec_int (sint n) @ newline)"

definition performing_line :: "16 word \<Rightarrow> event" where
  "performing_line p = Stderr (''Performing '' @ (if p \<noteq> 0 then ''print'' else ''delete'') @ ''...'' @ newline)"

subsection \<open>What the claims speak of\<close>

text \<open>
  The keys of a tree in postorder. The regular-file names among records, in the order of
  the records, as the specification words them; the records an enumeration yields (those
  of the batches before the first answer that is empty or an error), the number of these
  batches, and whether they are followed by an answer of zero records. The index that a
  sequence of names builds, by \<open>tsearch\<close> with enough memory, and its names in postorder.
  Acting on a list of keys one after the other, as the walk acts on a leaf. What a
  completed walk over a list of names leaves in the trace, given the mode, the progress
  flag and the count it starts from: each name acted on, followed, when progress is
  reported, by the marker that the count then reached calls for (a second of sleep and
  the count itself at every multiple of 50000, a dot at every other multiple of 1000).
  The mode a run is started in, whether its path argument is accepted, and the run up to
  the walk.
\<close>

fun postorder_keys :: "'a node \<Rightarrow> 'a list" where
  "postorder_keys Null = []"
| "postorder_keys (Node l k r) = postorder_keys l @ postorder_keys r @ [k]"

definition regular_names :: "linux_dirent list \<Rightarrow> string list" where
  "regular_names recs =
     map d_name (filter (\<lambda>d. d_name d \<noteq> ''.'' \<and> d_name d \<noteq> ''..'' \<and> d_type d = DT_REG) recs)"

fun enumerated :: "getdents_result list \<Rightarrow> linux_dirent list" where
  "enumerated [] = []"
| "enumerated (GD_error e # rest) = []"
| "enumerated (GD_records recs # rest) = (if recs = [] then [] else recs @ enumerated rest)"

fun leading_batches :: "getdents_result list \<Rightarrow> nat" where
  "leading_batches [] = 0"
| "leading_batches (GD_error e # rest) = 0"
| "leading_batches (GD_records recs # rest) = (if recs = [] then 0 else Suc (leading_batches rest))"

fun ends_with_zero :: "getdents_result list \<Rightarrow> bool" where
  "ends_with_zero [] = True"
| "ends_with_zero (GD_error e # rest) = False"
| "ends_with_zero (GD_records recs # rest) = (if recs = [] then True else ends_with_zero rest)"

definition index_insert :: "string \<Rightarrow> string node \<Rightarrow> string node" where
  "index_insert n t = (case tsearch n t strcmp 1 of Some (t', _) \<Rightarrow> t' | None \<Rightarrow> t)"

definition index_of :: "string list \<Rightarrow> string node" where
  "index_of ns = fold index_insert ns Null"

definition indexed_names :: "world \<Rightarrow> string list" where
  "indexed_names w = postorder_keys (index_of (regular_names (enumerated (dents0 w))))"

fun visit_all :: "name_ptr list \<Rightarrow> state \<Rightarrow> state result" where
  "visit_all [] s = Inr s"
| "visit_all (k # ks) s =
     (case walk_tree k leaf 0 s of Inl x \<Rightarrow> Inl x | Inr s1 \<Rightarrow> visit_all ks s1)"

definition progress_events :: "64 word \<Rightarrow> event list" where
  "progress_events c =
     (if c mod (progress_interval_minor * progress_interval_major) = 0 then
        [Sleep 1, Stderr ((if c \<noteq> 0 then newline else []) @ dec (unat c))]
      else if c mod progress_interval_minor = 0 then [Stderr ''.'']
      else [])"

fun visit_events :: "16 word \<Rightarrow> 16 word \<Rightarrow> 64 word \<Rightarrow> string list \<Rightarrow> event list" where
  "visit_events p sp c [] = []"
| "visit_events p sp c (n # ns) =
     name_event p n # (if sp \<noteq> 0 then progress_events (c + 1) else [])
       @ visit_events p sp (c + 1) ns"

definition mode_word :: "world \<Rightarrow> 16 word" where
  "mode_word w = (if environ w ''DENTLS_DELETE'' = None then 1 else 0)"

definition args_ok :: "world \<Rightarrow> bool" where
  "args_ok w \<longleftrightarrow> 2 \<le> length (argv w) \<and> take 1 (argv w ! 1) = ''/''"

definition pre_walk :: "world \<Rightarrow> state result" where
  "pre_walk w =
     (case check_args w (initial w) of
        Inl x \<Rightarrow> Inl x
      | Inr s1 \<Rightarrow>
     (case read_env w s1 of
        Inl x \<Rightarrow> Inl x
      | Inr s2 \<Rightarrow>
     (case open_directory w s2 of
        Inl x \<Rightarrow> Inl x
      | Inr s3 \<Rightarrow> getdents_loop (dents0 w) s3)))"

subsection \<open>Invariants and frames\<close>

text \<open>
  The search-tree order of an index of names. The buffer that the next \<^verbatim>\<open>getdents\<close> call
  fills is allocated and no key of the tree points into it: this is what keeps the names
  of earlier batches intact. What the loops and the walk leave unchanged.
\<close>

fun ordered :: "string node \<Rightarrow> bool" where
  "ordered Null = True"
| "ordered (Node l k r) =
     (ordered l \<and> ordered r \<and> (\<forall>x\<in>set_node l. strcmp x k < 0) \<and> (\<forall>x\<in>set_node r. strcmp x k > 0))"

definition fresh_buffer :: "state \<Rightarrow> bool" where
  "fresh_buffer s \<longleftrightarrow>
     buffer s < length (heap s)
     \<and> (\<forall>p\<in>set_node (tree s). fst p < length (heap s) \<and> fst p \<noteq> buffer s)"

definition scan_frame :: "state \<Rightarrow> state \<Rightarrow> bool" where
  "scan_frame s s' \<longleftrightarrow>
     delete_count s' = delete_count s \<and> show_progress s' = show_progress s
     \<and> print_only s' = print_only s \<and> buffer s' = buffer s
     \<and> dirent_buffers_list s' = dirent_buffers_list s \<and> heap s' = heap s
     \<and> files s' = files s \<and> undeletable s' = undeletable s \<and> trace s' = trace s"

definition walk_frame :: "state \<Rightarrow> state \<Rightarrow> bool" where
  "walk_frame s s' \<longleftrightarrow>
     heap s' = heap s \<and> print_only s' = print_only s \<and> show_progress s' = show_progress s
     \<and> undeletable s' = undeletable s \<and> dirent_buffers_list s' = dirent_buffers_list s
     \<and> tree s' = tree s \<and> totalfiles s' = totalfiles s \<and> buffer s' = buffer s
     \<and> mem s' = mem s"

definition can_act :: "state \<Rightarrow> name_ptr \<Rightarrow> bool" where
  "can_act s k \<longleftrightarrow>
     print_only s \<noteq> 0 \<or> (deref (heap s) k \<in> files s \<and> deref (heap s) k \<notin> undeletable s)"

definition files_after :: "state \<Rightarrow> string list \<Rightarrow> string set" where
  "files_after s names = (if print_only s \<noteq> 0 then files s else files s - set names)"

definition quiet :: "state \<Rightarrow> state \<Rightarrow> bool" where
  "quiet s s' \<longleftrightarrow>
     print_only s' = print_only s \<and> files s' = files s
     \<and> actions (trace s') = actions (trace s)
     \<and> filter is_total_line (trace s') = filter is_total_line (trace s)"

subsection \<open>Example runs\<close>

text \<open>
  A directory with three regular files, a subdirectory and a symbolic link, enumerated in
  two batches; the same directory enumerated in one batch by a run with progress markers;
  runs in destructive mode, with a mistyped mode value, with a relative path, a flag and
  no argument; an enumeration that returns a name twice; the process after the set-up,
  the process before a destructive walk in which \<open>c\<close> cannot be removed, and the process
  before a walk in report mode with progress markers whose counter stands at 49999.
\<close>

definition example_world :: world where
  "example_world = \<lparr> argv = [''dentls'', ''/srv/spool''], environ = (\<lambda>_. None),
     access_result = None, lstat_result = None, st_isdir = True, open_result = None,
     fchdir_result = None, mem0 = 16,
     dents0 = [GD_records [\<lparr>d_name = ''.'', d_type = 4\<rparr>, \<lparr>d_name = ''..'', d_type = 4\<rparr>,
                           \<lparr>d_name = ''b'', d_type = 8\<rparr>, \<lparr>d_name = ''sub'', d_type = 4\<rparr>,
                           \<lparr>d_name = ''a'', d_type = 8\<rparr>],
               GD_records [\<lparr>d_name = ''link'', d_type = 10\<rparr>, \<lparr>d_name = ''c'', d_type = 8\<rparr>]],
     files0 = {''a'', ''b'', ''c'', ''link'', ''sub''}, undeletable0 = {} \<rparr>"

definition example_world_one_batch :: world where
  "example_world_one_batch = \<lparr> argv = [''/usr/bin/dentls'', ''/srv/spool/''],
     environ = (\<lambda>_. None)(''DENTLS_PROGRESS'' := Some ''1''),
     access_result = None, lstat_result = None, st_isdir = True, open_result = None,
     fchdir_result = None, mem0 = 40,
     dents0 = [GD_records [\<lparr>d_name = ''.'', d_type = 4\<rparr>, \<lparr>d_name = ''..'', d_type = 4\<rparr>,
                           \<lparr>d_name = ''b'', d_type = 8\<rparr>, \<lparr>d_name = ''sub'', d_type = 4\<rparr>,
                           \<lparr>d_name = ''a'', d_type = 8\<rparr>,
                           \<lparr>d_name = ''link'', d_type = 10\<rparr>, \<lparr>d_name = ''c'', d_type = 8\<rparr>],
               GD_records []],
     files0 = {''a'', ''b'', ''c'', ''link'', ''sub''}, undeletable0 = {''b''} \<rparr>"

definition example_world_delete :: world where
  "example_world_delete = example_world\<lparr>environ := (\<lambda>_. None)(''DENTLS_DELETE'' := Some ''delete'')\<rparr>"

definition example_world_typo :: world where
  "example_world_typo = example_world\<lparr>environ := (\<lambda>_. None)(''DENTLS_DELETE'' := Some ''Delete'')\<rparr>"

definition example_world_relative :: world where
  "example_world_relative = example_world_delete\<lparr>argv := [''dentls'', ''srv/spool'']\<rparr>"

definition example_world_flag :: world where
  "example_world_flag = example_world_delete\<lparr>argv := [''dentls'', ''-rf'', ''/srv/spool'']\<rparr>"

definition example_world_no_argument :: world where
  "example_world_no_argument = example_world_delete\<lparr>argv := [''dentls'']\<rparr>"

definition degenerate_world :: world where
  "degenerate_world = example_world\<lparr>dents0 :=
     [GD_records [\<lparr>d_name = ''b'', d_type = 8\<rparr>, \<lparr>d_name = ''a'', d_type = 8\<rparr>],
      GD_records [\<lparr>d_name = ''a'', d_type = 8\<rparr>, \<lparr>d_name = ''c'', d_type = 8\<rparr>]]\<rparr>"

definition example_opened :: state where
  "example_opened = \<lparr> delete_count = 0, show_progress = 0, print_only = 1, tree = Null,
     totalfiles = 0, buffer = 0, dirent_buffers_list = [0], errno_var = 0, heap = [[]],
     mem = 14, files = {''a'', ''b'', ''c'', ''link'', ''sub''}, undeletable = {},
     trace = [Sys_access ''/srv/spool'', Sys_lstat ''/srv/spool'', Sys_open ''/srv/spool'',
              Sys_fchdir] \<rparr>"

definition example_state :: state where
  "example_state = \<lparr> delete_count = 0, show_progress = 0, print_only = 0,
     tree = Node (Node Null (0, 4) Null) (0, 2) (Node Null (1, 1) Null),
     totalfiles = 3, buffer = 2, dirent_buffers_list = [2, 1, 0], errno_var = 0,
     heap = [[\<lparr>d_name = ''.'', d_type = 4\<rparr>, \<lparr>d_name = ''..'', d_type = 4\<rparr>,
              \<lparr>d_name = ''b'', d_type = 8\<rparr>, \<lparr>d_name = ''sub'', d_type = 4\<rparr>,
              \<lparr>d_name = ''a'', d_type = 8\<rparr>],
             [\<lparr>d_name = ''link'', d_type = 10\<rparr>, \<lparr>d_name = ''c'', d_type = 8\<rparr>],
             []],
     mem = 9, files = {''a'', ''b'', ''c'', ''link'', ''sub''}, undeletable = {''c''},
     trace = [] \<rparr>"

definition example_state_progress :: state where
  "example_state_progress = example_state\<lparr>delete_count := 49999, show_progress := 1, print_only := 1\<rparr>"

section \<open>Lemmas\<close>

subsection \<open>The index\<close>

text \<open>
  \<open>strcmp\<close> is zero on equal strings only, so an index built by \<open>tsearch\<close> stays a search
  tree, holds every name inserted and holds it once. A tree of keys and the tree of the
  names they point to are searched alike.
\<close>

lemma strcmp_eq_0: "strcmp a b = 0 \<longleftrightarrow> a = b"
  by (induction a b rule: strcmp.induct) auto

lemma set_postorder_keys: "set (postorder_keys t) = set_node t"
  by (induction t) auto

lemma tsearch_mem_indep:
  "tsearch key t c m = Some (t', m') \<Longrightarrow> \<exists>k. tsearch key t c 1 = Some (t', k)"
  by (induction t arbitrary: t' m') (auto simp: Let_def split: if_splits option.splits)

lemma tsearch_index_insert:
  "tsearch n t strcmp m = Some (t', m') \<Longrightarrow> t' = index_insert n t"
  using tsearch_mem_indep[of n t strcmp m t' m'] by (auto simp: index_insert_def)

lemma tsearch_map_node:
  assumes "\<forall>y\<in>set_node t. c key y = c' (f key) (f y)"
  shows "map_option (map_prod (map_node f) id) (tsearch key t c m) = tsearch (f key) (map_node f t) c' m"
  using assms
  by (induction t) (auto simp: Let_def split: option.splits)

lemma tsearch_set:
  "tsearch key t c m = Some (t', m') \<Longrightarrow> set_node t' \<subseteq> insert key (set_node t) \<and> set_node t \<subseteq> set_node t'"
  by (induction t arbitrary: t' m') (auto simp: Let_def split: if_splits option.splits)

lemma index_insert_Null: "index_insert n Null = Node Null n Null"
  by (simp add: index_insert_def)

lemma index_insert_Node:
  "index_insert n (Node l k r) =
     (if strcmp n k = 0 then Node l k r
      else if strcmp n k < 0 then Node (index_insert n l) k r
      else Node l k (index_insert n r))"
proof -
  have a: "\<And>t. \<exists>t' k. tsearch n t strcmp 1 = Some (t', k)"
  proof -
    fix t show "\<exists>t' k. tsearch n t strcmp 1 = Some (t', k)"
      by (induction t) (auto simp: Let_def)
  qed
  obtain l' kl where l: "tsearch n l strcmp 1 = Some (l', kl)" using a by blast
  obtain r' kr where r: "tsearch n r strcmp 1 = Some (r', kr)" using a by blast
  show ?thesis using l r by (simp add: index_insert_def Let_def)
qed

lemma set_index_insert: "set_node (index_insert n t) = insert n (set_node t)"
  by (induction t) (auto simp: index_insert_Null index_insert_Node strcmp_eq_0)

lemma ordered_index_insert: "ordered t \<Longrightarrow> ordered (index_insert n t)"
  by (induction t) (auto simp: index_insert_Null index_insert_Node set_index_insert)

lemma strcmp_refl: "strcmp a a = 0"
  by (simp add: strcmp_eq_0)

lemma ordered_distinct: "ordered t \<Longrightarrow> distinct (postorder_keys t)"
proof (induction t)
  case Null
  then show ?case by simp
next
  case (Node l k r)
  have "k \<notin> set_node l" using Node.prems strcmp_refl[of k] by fastforce
  moreover have "k \<notin> set_node r" using Node.prems strcmp_refl[of k] by fastforce
  moreover have "set_node l \<inter> set_node r = {}" using Node.prems by fastforce
  ultimately show ?case using Node by (auto simp: set_postorder_keys)
qed

lemma fold_index_insert_set: "set_node (fold index_insert ns t) = set ns \<union> set_node t"
  by (induction ns arbitrary: t) (auto simp: set_index_insert)

lemma fold_index_insert_ordered: "ordered t \<Longrightarrow> ordered (fold index_insert ns t)"
  by (induction ns arbitrary: t) (auto simp: ordered_index_insert)

lemma set_index_of: "set (postorder_keys (index_of ns)) = set ns"
  by (simp add: index_of_def set_postorder_keys fold_index_insert_set)

lemma distinct_index_of: "distinct (postorder_keys (index_of ns))"
  by (simp add: index_of_def ordered_distinct fold_index_insert_ordered)

lemma postorder_keys_map: "postorder_keys (map_node f t) = map f (postorder_keys t)"
  by (induction t) auto

subsection \<open>The enumeration fills the index\<close>

text \<open>
  Read through the heap, the tree after a batch is the index of the names before it with
  the regular-file names of the batch inserted in their order; a later batch goes to a
  fresh buffer and leaves these names as they are.
\<close>

lemma regular_names_Nil: "regular_names [] = []"
  by (simp add: regular_names_def)

lemma regular_names_Cons:
  "regular_names (d # ds) =
     (if \<not> (strcmp ''.'' (d_name d) = 0 \<or> strcmp ''..'' (d_name d) = 0) \<and> d_type d = DT_REG
      then d_name d # regular_names ds else regular_names ds)"
  unfolding regular_names_def strcmp_eq_0 by auto

lemma regular_names_append: "regular_names (xs @ ys) = regular_names xs @ regular_names ys"
  by (simp add: regular_names_def)

lemma map_node_deref_tsearch:
  assumes "tsearch p t (compare_fnames h) m = Some (t', m')"
  shows "map_node (deref h) t' = index_insert (deref h p) (map_node (deref h) t)"
proof -
  have "map_option (map_prod (map_node (deref h)) id) (tsearch p t (compare_fnames h) m)
      = tsearch (deref h p) (map_node (deref h) t) strcmp m"
    by (rule tsearch_map_node) (simp add: compare_fnames_def)
  then have "tsearch (deref h p) (map_node (deref h) t) strcmp m = Some (map_node (deref h) t', m')"
    using assms by simp
  then show ?thesis by (rule tsearch_index_insert)
qed

lemma drop_Cons_nth: "drop i xs = y # ys \<Longrightarrow> xs ! i = y \<and> drop (Suc i) xs = ys"
  by (metis Cons_nth_drop_Suc drop_all linorder_not_less list.distinct(1) list.inject)

lemma scan_records_ok:
  assumes "scan_records recs i s = Inr s'" and "drop i (heap s ! buffer s) = recs"
  shows "scan_frame s s'
       \<and> map_node (deref (heap s)) (tree s')
           = fold index_insert (regular_names recs) (map_node (deref (heap s)) (tree s))
       \<and> totalfiles s' = totalfiles s + of_nat (length (regular_names recs))
       \<and> set_node (tree s') \<subseteq> set_node (tree s) \<union> {p. fst p = buffer s}"
  using assms
proof (induction recs arbitrary: i s)
  case Nil
  then show ?case by (simp add: regular_names_Nil scan_frame_def)
next
  case (Cons dent rest)
  have hd: "heap s ! buffer s ! i = dent" and tl: "drop (Suc i) (heap s ! buffer s) = rest"
    using drop_Cons_nth[OF Cons.prems(2)] by simp_all
  show ?case
  proof (cases "\<not> (strcmp ''.'' (d_name dent) = 0 \<or> strcmp ''..'' (d_name dent) = 0) \<and> d_type dent = DT_REG")
    case False
    then have "scan_records rest (Suc i) s = Inr s'" using Cons.prems(1) by (auto split: if_splits)
    from Cons.IH[OF this tl] False show ?thesis by (simp add: regular_names_Cons)
  next
    case True
    then obtain t m where ts: "tsearch (buffer s, i) (tree s) (compare_fnames (heap s)) (mem s) = Some (t, m)"
      and rec: "scan_records rest (Suc i) (s\<lparr>tree := t, mem := m, totalfiles := totalfiles s + 1\<rparr>) = Inr s'"
      using Cons.prems(1) by (auto simp: exit_with_def split: option.splits)
    let ?s1 = "s\<lparr>tree := t, mem := m, totalfiles := totalfiles s + 1\<rparr>"
    have tl1: "drop (Suc i) (heap ?s1 ! buffer ?s1) = rest" using tl by simp
    note ih = Cons.IH[OF rec tl1]
    have nm: "deref (heap s) (buffer s, i) = d_name dent" using hd by (simp add: deref_def)
    have t1: "map_node (deref (heap s)) t = index_insert (d_name dent) (map_node (deref (heap s)) (tree s))"
      using map_node_deref_tsearch[OF ts] nm by simp
    have st: "set_node t \<subseteq> insert (buffer s, i) (set_node (tree s))" using tsearch_set[OF ts] by simp
    have a: "scan_frame s s'" using conjunct1[OF ih] unfolding scan_frame_def by simp
    have b: "map_node (deref (heap s)) (tree s')
           = fold index_insert (regular_names (dent # rest)) (map_node (deref (heap s)) (tree s))"
      using ih t1 True by (simp add: regular_names_Cons)
    have c: "totalfiles s' = totalfiles s + of_nat (length (regular_names (dent # rest)))"
      using ih True by (simp add: regular_names_Cons)
    have d: "set_node (tree s') \<subseteq> set_node (tree s) \<union> {p. fst p = buffer s}"
      using ih st by auto
    show ?thesis using a b c d by (intro conjI)
  qed
qed

lemma map_node_deref_cong:
  "(\<And>p. p \<in> set_node t \<Longrightarrow> h' ! fst p = h ! fst p) \<Longrightarrow> map_node (deref h') t = map_node (deref h) t"
  by (rule node.map_cong) (simp_all add: deref_def)

lemma getdents_loop_ok:
  assumes "getdents_loop ds s = Inr s'" and "fresh_buffer s"
  shows "map_node (deref (heap s')) (tree s')
           = fold index_insert (regular_names (enumerated ds)) (map_node (deref (heap s)) (tree s))
       \<and> totalfiles s' = totalfiles s + of_nat (length (regular_names (enumerated ds)))
       \<and> delete_count s' = delete_count s \<and> show_progress s' = show_progress s
       \<and> print_only s' = print_only s \<and> files s' = files s \<and> undeletable s' = undeletable s
       \<and> (\<exists>bs. trace s' = trace s @ map Sys_getdents bs \<and> length bs = Suc (leading_batches ds))
       \<and> ends_with_zero ds"
  using assms
proof (induction ds arbitrary: s)
  case Nil
  then show ?case
    by (auto simp: emit_def regular_names_Nil intro: exI[of _ "[buffer s]"])
next
  case (Cons d rest)
  show ?case
  proof (cases d)
    case (GD_error e)
    then show ?thesis using Cons.prems(1) by (simp add: exit_with_def)
  next
    case (GD_records recs)
    show ?thesis
    proof (cases "recs = []")
      case True
      then show ?thesis using Cons.prems(1) GD_records
        by (auto simp: emit_def regular_names_Nil intro: exI[of _ "[buffer s]"])
    next
      case False
      let ?s1 = "(emit (Sys_getdents (buffer s)) s)\<lparr>heap := (heap s)[buffer s := recs]\<rparr>"
      from Cons.prems(1) GD_records False
      obtain s2 where scan: "scan_records recs 0 ?s1 = Inr s2"
        and rest1: "(case malloc s2 of
           (None, s3) \<Rightarrow> exit_with 1 (perror ''malloc failed'' s3)
         | (Some b, s3) \<Rightarrow>
        (case linked_list_prepend_override b (s3\<lparr>buffer := b\<rparr>) of
           Inl x \<Rightarrow> Inl x
         | Inr s4 \<Rightarrow> getdents_loop rest s4)) = Inr s'"
        by (auto simp: Let_def emit_def split: sum.splits)
      have m2: "mem s2 \<noteq> 0" using rest1 by (auto simp: malloc_def exit_with_def split: if_splits)
      let ?s3 = "s2\<lparr>mem := mem s2 - 1, heap := heap s2 @ [[]], buffer := length (heap s2)\<rparr>"
      have rest2: "(case linked_list_prepend_override (length (heap s2)) ?s3 of
           Inl x \<Rightarrow> Inl x | Inr s4 \<Rightarrow> getdents_loop rest s4) = Inr s'"
        using rest1 m2 by (simp add: malloc_def)
      have m3: "mem ?s3 \<noteq> 0" using rest2 by (auto simp: linked_list_prepend_override_def exit_with_def split: if_splits)
      let ?s4 = "?s3\<lparr>mem := mem ?s3 - 1, dirent_buffers_list := length (heap s2) # dirent_buffers_list ?s3\<rparr>"
      have loop: "getdents_loop rest ?s4 = Inr s'"
        using rest2 m3 by (simp add: linked_list_prepend_override_def)
      have bl: "buffer s < length (heap s)" and old: "\<And>p. p \<in> set_node (tree s) \<Longrightarrow> fst p < length (heap s) \<and> fst p \<noteq> buffer s"
        using Cons.prems(2) by (auto simp: fresh_buffer_def)
      have pre: "drop 0 (heap ?s1 ! buffer ?s1) = recs" using bl by (simp add: emit_def)
      note sc = scan_records_ok[OF scan pre]
      have fr: "scan_frame ?s1 s2" using sc by simp
      have h2: "heap s2 = (heap s)[buffer s := recs]" and b2: "buffer s2 = buffer s"
        and tr2: "trace s2 = trace s @ [Sys_getdents (buffer s)]"
        using fr by (simp_all add: scan_frame_def emit_def)
      have sub: "set_node (tree s2) \<subseteq> set_node (tree s) \<union> {p. fst p = buffer s}"
        using sc by (simp add: emit_def)
      have lt: "\<And>p. p \<in> set_node (tree s2) \<Longrightarrow> fst p < length (heap s)"
        using sub old bl by auto
      have fresh4: "fresh_buffer ?s4"
        unfolding fresh_buffer_def
      proof (intro conjI ballI)
        show "buffer ?s4 < length (heap ?s4)" by simp
      next
        fix p assume "p \<in> set_node (tree ?s4)"
        then have "fst p < length (heap s)" using lt by simp
        then show "fst p < length (heap ?s4)" by (simp add: h2)
      next
        fix p assume "p \<in> set_node (tree ?s4)"
        then have "fst p < length (heap s)" using lt by simp
        then show "fst p \<noteq> buffer ?s4" by (simp add: h2)
      qed
      note ih = Cons.IH[OF loop fresh4]
      have "map_node (deref (heap s2 @ [[]])) (tree s2) = map_node (deref (heap s2)) (tree s2)"
        by (rule map_node_deref_cong) (use lt h2 in \<open>simp add: nth_append\<close>)
      then have e1: "map_node (deref (heap ?s4)) (tree ?s4) = map_node (deref (heap s2)) (tree s2)"
        by simp
      have "map_node (deref ((heap s)[buffer s := recs])) (tree s) = map_node (deref (heap s)) (tree s)"
      proof (rule map_node_deref_cong)
        fix p assume "p \<in> set_node (tree s)"
        then have "fst p \<noteq> buffer s" using old by blast
        then show "(heap s)[buffer s := recs] ! fst p = heap s ! fst p" by simp
      qed
      then have e2: "map_node (deref (heap ?s1)) (tree ?s1) = map_node (deref (heap s)) (tree s)"
        by (simp add: emit_def)
      have e3: "map_node (deref (heap s2)) (tree s2)
              = fold index_insert (regular_names recs) (map_node (deref (heap s)) (tree s))"
        using sc e2 h2 by (simp add: emit_def)
      have en: "enumerated (d # rest) = recs @ enumerated rest" using GD_records False by simp
      have a: "map_node (deref (heap s')) (tree s')
           = fold index_insert (regular_names (enumerated (d # rest))) (map_node (deref (heap s)) (tree s))"
        using ih e1 e3 by (simp add: en regular_names_append)
      have tf2: "totalfiles s2 = totalfiles s + of_nat (length (regular_names recs))"
        using sc by (simp add: emit_def)
      have b: "totalfiles s' = totalfiles s + of_nat (length (regular_names (enumerated (d # rest))))"
        using ih tf2 by (simp add: en regular_names_append)
      have c: "delete_count s' = delete_count s \<and> show_progress s' = show_progress s
       \<and> print_only s' = print_only s \<and> files s' = files s \<and> undeletable s' = undeletable s"
        using ih fr by (simp add: scan_frame_def emit_def)
      from ih obtain bs where bs: "trace s' = trace ?s4 @ map Sys_getdents bs" "length bs = Suc (leading_batches rest)"
        by blast
      have d: "\<exists>bs. trace s' = trace s @ map Sys_getdents bs \<and> length bs = Suc (leading_batches (d # rest))"
        using bs tr2 GD_records False by (intro exI[of _ "buffer s # bs"]) simp
      have e: "ends_with_zero (d # rest)" using ih GD_records False by simp
      show ?thesis using a b c d e by (intro conjI) simp_all
    qed
  qed
qed

subsection \<open>The walk\<close>

text \<open>
  \<open>twalk\<close> with \<open>walk_tree\<close> acts on the keys in postorder. One action prints or removes
  one name and may add progress markers; a removal that fails ends the program.
\<close>

lemma walk_tree_skip:
  "walk_tree k preorder lvl s = Inr s" "walk_tree k postorder lvl s = Inr s"
  by (simp_all add: walk_tree_def)

lemma walk_tree_acts:
  "walk_tree k endorder lvl s = walk_tree k leaf 0 s" "walk_tree k leaf lvl s = walk_tree k leaf 0 s"
  by (simp_all add: walk_tree_def)

lemma visit_all_append:
  "visit_all (xs @ ys) s = (case visit_all xs s of Inl x \<Rightarrow> Inl x | Inr s1 \<Rightarrow> visit_all ys s1)"
  by (induction xs arbitrary: s) (auto split: sum.splits)

lemma trecurse_visit_all: "trecurse t walk_tree lvl s = visit_all (postorder_keys t) s"
proof (induction t arbitrary: lvl s)
  case Null
  then show ?case by simp
next
  case (Node l k r)
  have one: "visit_all [k] s = walk_tree k leaf lvl s" for s
    using walk_tree_acts(2)[of k lvl s] by (simp split: sum.splits)
  have fin: "walk_tree k endorder lvl s = visit_all [k] s" for s
    using walk_tree_acts(1)[of k lvl s] by (simp split: sum.splits)
  show ?case
  proof (cases "l = Null \<and> r = Null")
    case True
    then show ?thesis using one by simp
  next
    case False
    then have "trecurse (Node l k r) walk_tree lvl s =
        (case trecurse l walk_tree (lvl + 1) s of
           Inl x \<Rightarrow> Inl x
         | Inr s2 \<Rightarrow>
        (case trecurse r walk_tree (lvl + 1) s2 of
           Inl x \<Rightarrow> Inl x
         | Inr s4 \<Rightarrow> walk_tree k endorder lvl s4))"
      by (auto simp: walk_tree_skip split: sum.splits)
    also have "\<dots> = visit_all (postorder_keys l @ postorder_keys r @ [k]) s"
      unfolding visit_all_append Node.IH fin ..
    finally show ?thesis by simp
  qed
qed

lemma digit_in: "n < 10 \<Longrightarrow> digit n \<in> set ''0123456789''"
  unfolding digit_def by (rule nth_mem) simp

lemma dec_hd: "dec n \<noteq> [] \<and> hd (dec n) \<in> set ''0123456789''"
proof (induction n rule: dec.induct)
  case (1 n)
  show ?case
  proof (cases "n < 10")
    case True
    then show ?thesis using digit_in[of n] by (subst dec.simps, subst (2) dec.simps) simp
  next
    case False
    then show ?thesis using 1 by (subst dec.simps, subst (2) dec.simps) simp
  qed
qed

lemma is_progress_dec: "is_progress (Stderr ((if c then newline else []) @ dec n))"
  using dec_hd[of n] by (auto simp: is_progress_def newline_def)

lemma report_progress_trace:
  "\<exists>evs. report_progress s = s\<lparr>trace := trace s @ evs\<rparr> \<and> (\<forall>e\<in>set evs. is_progress e)"
proof (cases "delete_count s mod (progress_interval_minor * progress_interval_major) = 0")
  case True
  let ?e = "Stderr ((if delete_count s \<noteq> 0 then newline else []) @ dec (unat (delete_count s)))"
  have "report_progress s = s\<lparr>trace := trace s @ [Sleep 1, ?e]\<rparr>"
    using True by (simp add: report_progress_def emit_def)
  moreover have "\<forall>e\<in>set [Sleep 1, ?e]. is_progress e"
    using is_progress_dec[of "delete_count s \<noteq> 0"] by (simp add: is_progress_def)
  ultimately show ?thesis by blast
next
  case False
  show ?thesis
  proof (cases "delete_count s mod progress_interval_minor = 0")
    case True
    have "report_progress s = s\<lparr>trace := trace s @ [Stderr ''.'']\<rparr>"
      using True False by (simp add: report_progress_def emit_def)
    moreover have "\<forall>e\<in>set [Stderr ''.'']. is_progress e" by (simp add: is_progress_def)
    ultimately show ?thesis by blast
  next
    case F2: False
    have "report_progress s = s\<lparr>trace := trace s @ []\<rparr>"
      using F2 False by (simp add: report_progress_def)
    then show ?thesis by (intro exI[of _ "[]"]) simp
  qed
qed

lemma walk_tree_ok:
  assumes "can_act s k"
  shows "\<exists>s' evs. walk_tree k leaf 0 s = Inr s' \<and> walk_frame s s'
      \<and> files s' = files_after s [deref (heap s) k]
      \<and> delete_count s' = delete_count s + 1
      \<and> trace s' = trace s @ action_event s k # evs
      \<and> (show_progress s = 0 \<longrightarrow> evs = []) \<and> (\<forall>e\<in>set evs. is_progress e)"
proof -
  let ?n = "deref (heap s) k"
  let ?s1 = "s\<lparr>trace := trace s @ [action_event s k], files := files_after s [?n],
                delete_count := delete_count s + 1\<rparr>"
  have pu: "print_or_unlink k s = (0, ?s1)"
    using assms
    by (auto simp: print_or_unlink_def unlink_def can_act_def action_event_def files_after_def
        emit_def Let_def)
  show ?thesis
  proof (cases "show_progress s = 0")
    case True
    then have "walk_tree k leaf 0 s = Inr ?s1" using pu by (simp add: walk_tree_def)
    then show ?thesis using True
      by (intro exI[of _ ?s1] exI[of _ "[]"]) (simp add: walk_frame_def)
  next
    case False
    then have w: "walk_tree k leaf 0 s = Inr (report_progress ?s1)"
      using pu by (simp add: walk_tree_def)
    obtain evs where evs: "report_progress ?s1 = ?s1\<lparr>trace := trace ?s1 @ evs\<rparr>"
      "\<forall>e\<in>set evs. is_progress e"
      using report_progress_trace[of ?s1] by blast
    show ?thesis using w evs False
      by (intro exI[of _ "report_progress ?s1"] exI[of _ evs]) (simp add: walk_frame_def)
  qed
qed

lemma walk_tree_fail:
  assumes "\<not> can_act s k"
  shows "walk_tree k leaf 0 s =
     Inl (1, s\<lparr>trace := trace s @ [Sys_unlink (deref (heap s) k),
                   Stderr (''Failed to delete '' @ deref (heap s) k),
                   Perror ''unlink problem'' (if deref (heap s) k \<in> files s then EACCES else ENOENT)],
               errno_var := (if deref (heap s) k \<in> files s then EACCES else ENOENT),
               delete_count := delete_count s + 1\<rparr>)"
  using assms
  by (auto simp: walk_tree_def print_or_unlink_def unlink_def can_act_def emit_def perror_def
      exit_with_def Let_def)

lemma is_action_action_event: "is_action (action_event s k)"
  by (simp add: is_action_def action_event_def)

lemma is_progress_not_action: "is_progress e \<Longrightarrow> \<not> is_action e"
  by (cases e) (simp_all add: is_progress_def is_action_def)

lemma filter_is_action_progress: "\<forall>e\<in>set evs. is_progress e \<Longrightarrow> filter is_action evs = []"
  by (induction evs) (auto simp: is_progress_not_action)

lemma visit_all_ok:
  assumes "print_only s \<noteq> 0 \<or>
     (distinct (map (deref (heap s)) ks) \<and> set (map (deref (heap s)) ks) \<subseteq> files s - undeletable s)"
  shows "\<exists>s' evs. visit_all ks s = Inr s' \<and> walk_frame s s'
      \<and> files s' = files_after s (map (deref (heap s)) ks)
      \<and> delete_count s' = delete_count s + of_nat (length ks)
      \<and> trace s' = trace s @ evs
      \<and> actions evs = map (action_event s) ks
      \<and> (show_progress s = 0 \<longrightarrow> evs = map (action_event s) ks)
      \<and> (\<forall>e\<in>set evs. is_action e \<or> is_progress e)"
  using assms
proof (induction ks arbitrary: s)
  case Nil
  then show ?case
    by (intro exI[of _ s] exI[of _ "[]"]) (simp add: walk_frame_def files_after_def actions_def)
next
  case (Cons k ks)
  let ?n = "deref (heap s) k"
  have ca: "can_act s k" using Cons.prems by (auto simp: can_act_def)
  from walk_tree_ok[OF ca] obtain s1 ev1 where
    w: "walk_tree k leaf 0 s = Inr s1" and fr: "walk_frame s s1"
    and f1: "files s1 = files_after s [?n]"
    and d1: "delete_count s1 = delete_count s + 1"
    and t1: "trace s1 = trace s @ action_event s k # ev1"
    and p1: "show_progress s = 0 \<longrightarrow> ev1 = []" and q1: "\<forall>e\<in>set ev1. is_progress e"
    by blast
  have h1: "heap s1 = heap s" and po1: "print_only s1 = print_only s"
    and sp1: "show_progress s1 = show_progress s" and u1: "undeletable s1 = undeletable s"
    using fr by (simp_all add: walk_frame_def)
  have pre: "print_only s1 \<noteq> 0 \<or>
     (distinct (map (deref (heap s1)) ks) \<and> set (map (deref (heap s1)) ks) \<subseteq> files s1 - undeletable s1)"
  proof (cases "print_only s \<noteq> 0")
    case True
    then show ?thesis using po1 by simp
  next
    case False
    then have dn: "?n \<notin> set (map (deref (heap s)) ks)" "distinct (map (deref (heap s)) ks)"
      and sub: "set (map (deref (heap s)) ks) \<subseteq> files s - undeletable s"
      using Cons.prems by simp_all
    have "files s1 = files s - {?n}" using f1 False by (simp add: files_after_def)
    then have "set (map (deref (heap s)) ks) \<subseteq> files s1 - undeletable s1"
      using dn(1) sub u1 by blast
    then show ?thesis using dn(2) h1 by simp
  qed
  from Cons.IH[OF pre] obtain s' evs where
    v: "visit_all ks s1 = Inr s'" and fr': "walk_frame s1 s'"
    and f': "files s' = files_after s1 (map (deref (heap s1)) ks)"
    and d': "delete_count s' = delete_count s1 + of_nat (length ks)"
    and t': "trace s' = trace s1 @ evs"
    and a': "actions evs = map (action_event s1) ks"
    and p': "show_progress s1 = 0 \<longrightarrow> evs = map (action_event s1) ks"
    and q': "\<forall>e\<in>set evs. is_action e \<or> is_progress e"
    by blast
  have ae: "action_event s1 = action_event s"
    by (rule ext) (simp add: action_event_def h1 po1)
  let ?evs = "action_event s k # ev1 @ evs"
  have 1: "visit_all (k # ks) s = Inr s'" using w v by simp
  have 2: "walk_frame s s'" using fr fr' by (simp add: walk_frame_def)
  have 3: "files s' = files_after s (map (deref (heap s)) (k # ks))"
    using f' f1 h1 po1 by (auto simp: files_after_def)
  have 4: "delete_count s' = delete_count s + of_nat (length (k # ks))"
    using d' d1 by simp
  have 5: "trace s' = trace s @ ?evs" using t' t1 by simp
  have 6: "actions ?evs = map (action_event s) (k # ks)"
    using a' ae filter_is_action_progress[OF q1]
    by (simp add: actions_def is_action_action_event)
  have 7: "show_progress s = 0 \<longrightarrow> ?evs = map (action_event s) (k # ks)"
    using p1 p' sp1 ae by simp
  have 8: "\<forall>e\<in>set ?evs. is_action e \<or> is_progress e"
    using q1 q' is_action_action_event[of s k] by auto
  show ?case
    by (intro exI[of _ s'] exI[of _ ?evs] conjI) (rule 1 2 3 4 5 6 7 8)+
qed

lemma walk_tree_Inl: "walk_tree k v lvl s = Inl (c, s') \<Longrightarrow> c = 1"
  by (auto simp: walk_tree_def exit_with_def split: VISIT.splits prod.splits if_splits)

lemma visit_all_Inl: "visit_all ks s = Inl (c, s') \<Longrightarrow> c = 1"
  by (induction ks arbitrary: s) (auto split: sum.splits dest: walk_tree_Inl)

lemma visit_all_Inr_pre:
  assumes "visit_all ks s = Inr s'"
  shows "print_only s \<noteq> 0 \<or>
     (distinct (map (deref (heap s)) ks) \<and> set (map (deref (heap s)) ks) \<subseteq> files s - undeletable s)"
  using assms
proof (induction ks arbitrary: s)
  case Nil
  then show ?case by simp
next
  case (Cons k ks)
  let ?n = "deref (heap s) k"
  have ca: "can_act s k"
  proof (rule ccontr)
    assume "\<not> can_act s k"
    from walk_tree_fail[OF this] Cons.prems show False by simp
  qed
  from walk_tree_ok[OF ca] obtain s1 where
    w: "walk_tree k leaf 0 s = Inr s1" and fr: "walk_frame s s1"
    and f1: "files s1 = files_after s [?n]"
    by blast
  have v: "visit_all ks s1 = Inr s'" using Cons.prems w by simp
  note ih = Cons.IH[OF v]
  have h1: "heap s1 = heap s" and po1: "print_only s1 = print_only s"
    and u1: "undeletable s1 = undeletable s"
    using fr by (simp_all add: walk_frame_def)
  show ?case
  proof (cases "print_only s \<noteq> 0")
    case True
    then show ?thesis by simp
  next
    case False
    then have fs: "files s1 = files s - {?n}" using f1 by (simp add: files_after_def)
    have d: "distinct (map (deref (heap s)) ks)" and sub: "set (map (deref (heap s)) ks) \<subseteq> files s1 - undeletable s"
      using ih False po1 h1 u1 by simp_all
    have n1: "?n \<notin> set (map (deref (heap s)) ks)" using sub fs by blast
    have n2: "?n \<in> files s - undeletable s" using ca False by (simp add: can_act_def)
    have "set (map (deref (heap s)) (k # ks)) \<subseteq> files s - undeletable s"
      using sub fs n2 by auto
    then show ?thesis using d n1 by simp
  qed
qed

lemma visit_all_fail:
  assumes "print_only s = 0"
      and "map (deref (heap s)) ks = ok @ n # rest"
      and "distinct ok" and "set ok \<subseteq> files s - undeletable s"
      and "n \<notin> files s - set ok \<or> n \<in> undeletable s"
  shows "\<exists>s' evs. visit_all ks s = Inl (1, s') \<and> files s' = files s - set ok
      \<and> undeletable s' = undeletable s
      \<and> trace s' = trace s @ evs @ [Sys_unlink n, Stderr (''Failed to delete '' @ n),
           Perror ''unlink problem'' (if n \<in> files s - set ok then EACCES else ENOENT)]
      \<and> actions evs = map Sys_unlink ok
      \<and> (show_progress s = 0 \<longrightarrow> evs = map Sys_unlink ok)
      \<and> (\<forall>e\<in>set evs. is_action e \<or> is_progress e) \<and> print_only s' = 0"
proof -
  from assms(2) obtain ks1 k ks2 where ks: "ks = ks1 @ k # ks2"
    and m1: "map (deref (heap s)) ks1 = ok" and mk: "deref (heap s) k = n"
    by (auto simp: map_eq_append_conv map_eq_Cons_conv)
  have pre: "print_only s \<noteq> 0 \<or>
     (distinct (map (deref (heap s)) ks1) \<and> set (map (deref (heap s)) ks1) \<subseteq> files s - undeletable s)"
    using assms(3,4) m1 by simp
  from visit_all_ok[OF pre] obtain s1 evs where
    v: "visit_all ks1 s = Inr s1" and fr: "walk_frame s s1"
    and f1: "files s1 = files_after s (map (deref (heap s)) ks1)"
    and t1: "trace s1 = trace s @ evs"
    and a1: "actions evs = map (action_event s) ks1"
    and p1: "show_progress s = 0 \<longrightarrow> evs = map (action_event s) ks1"
    and q1: "\<forall>e\<in>set evs. is_action e \<or> is_progress e"
    by blast
  have h1: "heap s1 = heap s" and po1: "print_only s1 = 0"
    and u1: "undeletable s1 = undeletable s"
    using fr assms(1) by (simp_all add: walk_frame_def)
  have fs: "files s1 = files s - set ok" using f1 m1 assms(1) by (simp add: files_after_def)
  have ae: "map (action_event s) ks1 = map Sys_unlink ok"
    using m1 assms(1) by (auto simp: action_event_def)
  have nca: "\<not> can_act s1 k"
    using assms(5) by (simp add: can_act_def po1 h1 mk fs u1)
  let ?e = "if n \<in> files s - set ok then EACCES else ENOENT"
  let ?s' = "s1\<lparr>trace := trace s1 @ [Sys_unlink n, Stderr (''Failed to delete '' @ n),
                   Perror ''unlink problem'' ?e],
               errno_var := ?e, delete_count := delete_count s1 + 1\<rparr>"
  have wf: "walk_tree k leaf 0 s1 = Inl (1, ?s')"
    using walk_tree_fail[OF nca] by (simp add: h1 mk fs)
  have 1: "visit_all ks s = Inl (1, ?s')"
    unfolding ks visit_all_append using v wf by simp
  have 2: "files ?s' = files s - set ok" using fs by simp
  have 3: "undeletable ?s' = undeletable s" using u1 by simp
  have 4: "trace ?s' = trace s @ evs @ [Sys_unlink n, Stderr (''Failed to delete '' @ n),
           Perror ''unlink problem'' ?e]" using t1 by simp
  have 5: "actions evs = map Sys_unlink ok" using a1 ae by simp
  have 6: "show_progress s = 0 \<longrightarrow> evs = map Sys_unlink ok" using p1 ae by simp
  have 7: "print_only ?s' = 0" using po1 by simp
  show ?thesis
    by (intro exI[of _ ?s'] exI[of _ evs] conjI) (rule 1 2 3 4 5 6 q1 7)+
qed

subsection \<open>The phases of the program\<close>

text \<open>
  A phase that exits does so with a status other than 0, and a phase that returns has
  changed the process in a known way; so a run with status 0 went through all of them.
\<close>

lemma check_args_Inl: "check_args w s = Inl (c, s') \<Longrightarrow> c \<noteq> 0"
  by (auto simp: check_args_def exit_with_def split: if_splits)

lemma check_args_Inr:
  "check_args w s = Inr s' \<Longrightarrow>
     s' = s \<and> 2 \<le> length (argv w) \<and> (\<exists>cs. argv w ! 1 = CHR ''/'' # cs)"
  by (auto simp: check_args_def exit_with_def split: if_splits list.splits)

lemma read_env_Inl: "read_env w s = Inl (c, s') \<Longrightarrow> c = 1 \<and> files s' = files s"
  by (auto simp: read_env_def exit_with_def emit_def split: if_splits option.splits sum.splits)

lemma read_env_Inr:
  "read_env w s = Inr s' \<Longrightarrow>
     s' = s\<lparr>print_only := (if environ w ''DENTLS_DELETE'' = None then print_only s else 0),
           show_progress := (if environ w ''DENTLS_PROGRESS'' = None then show_progress s else 1)\<rparr>
     \<and> (environ w ''DENTLS_DELETE'' = None \<or> environ w ''DENTLS_DELETE'' = Some ''delete'')"
  unfolding read_env_def exit_with_def strcmp_eq_0
  by (auto split: if_splits option.splits sum.splits)

lemma syscall_or_die_Inl: "syscall_or_die ev res msg s = Inl (c, s') \<Longrightarrow> c = 1"
  by (auto simp: syscall_or_die_def exit_with_def split: option.splits)

lemma syscall_or_die_Inr:
  "syscall_or_die ev res msg s = Inr s' \<Longrightarrow> s' = s\<lparr>trace := trace s @ [ev]\<rparr> \<and> res = None"
  by (auto simp: syscall_or_die_def exit_with_def emit_def split: option.splits)

lemma malloc_cases:
  "malloc s = (r, s') \<Longrightarrow>
     (r = None \<and> mem s = 0) \<or>
     (r = Some (length (heap s)) \<and> mem s \<noteq> 0 \<and> s' = s\<lparr>mem := mem s - 1, heap := heap s @ [[]]\<rparr>)"
  by (auto simp: malloc_def split: if_splits)

lemma prepend_Inl: "linked_list_prepend_override b s = Inl (c, s') \<Longrightarrow> c = 1"
  by (auto simp: linked_list_prepend_override_def exit_with_def split: if_splits)

lemma prepend_Inr:
  "linked_list_prepend_override b s = Inr s' \<Longrightarrow>
     mem s \<noteq> 0 \<and> s' = s\<lparr>mem := mem s - 1, dirent_buffers_list := b # dirent_buffers_list s\<rparr>"
  by (auto simp: linked_list_prepend_override_def exit_with_def split: if_splits)

lemma open_directory_Inl: "open_directory w s = Inl (c, s') \<Longrightarrow> c = 1"
  unfolding open_directory_def Let_def
  by (auto simp: exit_with_def split: sum.splits if_splits prod.splits option.splits
      dest: syscall_or_die_Inl prepend_Inl)

lemma open_directory_Inr:
  assumes "open_directory w s = Inr s'"
  shows "s' = s\<lparr>trace := trace s @ [Sys_access (argv w ! 1), Sys_lstat (argv w ! 1),
                     Sys_open (argv w ! 1), Sys_fchdir],
               mem := mem s - 2, heap := heap s @ [[]], buffer := length (heap s),
               dirent_buffers_list := length (heap s) # dirent_buffers_list s\<rparr>"
proof -
  let ?p = "argv w ! 1"
  from assms obtain s1 s2 r s3 s4 s5 where
    1: "syscall_or_die (Sys_access ?p) (access_result w) ''Could not access directory'' s = Inr s1"
    and 2: "syscall_or_die (Sys_lstat ?p) (lstat_result w) ''Unable to lstat path'' s1 = Inr s2"
    and 3: "malloc s2 = (Some r, s3)"
    and 4: "linked_list_prepend_override r (s3\<lparr>buffer := r\<rparr>) = Inr s4"
    and 5: "syscall_or_die (Sys_open ?p) (open_result w) ''Open error'' s4 = Inr s5"
    and 6: "syscall_or_die Sys_fchdir (fchdir_result w) ''fchdir'' s5 = Inr s'"
    unfolding open_directory_def Let_def
    by (auto simp: exit_with_def split: sum.splits if_splits prod.splits option.splits)
  note a = syscall_or_die_Inr[OF 1] syscall_or_die_Inr[OF 2] malloc_cases[OF 3]
    prepend_Inr[OF 4] syscall_or_die_Inr[OF 5] syscall_or_die_Inr[OF 6]
  show ?thesis using a by simp
qed

lemma scan_records_Inl: "scan_records recs i s = Inl (c, s') \<Longrightarrow> c = 1"
  by (induction recs arbitrary: i s) (auto simp: exit_with_def split: if_splits option.splits)

lemma getdents_loop_Inl: "getdents_loop ds s = Inl (c, s') \<Longrightarrow> c = 1"
proof (induction ds s rule: getdents_loop.induct)
  case (1 s)
  then show ?case by simp
next
  case (2 e rest s)
  then show ?case by (simp add: exit_with_def)
next
  case (3 recs rest s)
  show ?case
  proof (cases "recs = []")
    case True
    then show ?thesis using 3 by (simp add: Let_def)
  next
    case False
    then show ?thesis using 3
      by (auto simp: Let_def exit_with_def split: sum.splits prod.splits option.splits
          dest: scan_records_Inl prepend_Inl)
  qed
qed

lemma walk_and_finish_Inl: "walk_and_finish s = Inl (c, s') \<Longrightarrow> c = 1"
  unfolding walk_and_finish_def Let_def twalk_def trecurse_visit_all
  by (auto split: sum.splits dest: visit_all_Inl)

lemma main_success:
  assumes "fst (main w) = 0"
  shows "\<exists>s2 s3 s4 s5.
    check_args w (initial w) = Inr (initial w) \<and>
    read_env w (initial w) = Inr s2 \<and>
    open_directory w s2 = Inr s3 \<and>
    getdents_loop (dents0 w) s3 = Inr s4 \<and>
    walk_and_finish s4 = Inr s5 \<and>
    main w = (0, s5)"
proof -
  obtain s1 where 1: "check_args w (initial w) = Inr s1"
    using assms unfolding main_def
    by (cases "check_args w (initial w)") (auto dest: check_args_Inl)
  have s1: "s1 = initial w" using check_args_Inr[OF 1] by simp
  obtain s2 where 2: "read_env w s1 = Inr s2"
    using assms 1 unfolding main_def
    by (cases "read_env w s1") (auto dest: read_env_Inl)
  obtain s3 where 3: "open_directory w s2 = Inr s3"
    using assms 1 2 unfolding main_def
    by (cases "open_directory w s2") (auto dest: open_directory_Inl)
  obtain s4 where 4: "getdents_loop (dents0 w) s3 = Inr s4"
    using assms 1 2 3 unfolding main_def
    by (cases "getdents_loop (dents0 w) s3") (auto dest: getdents_loop_Inl)
  obtain s5 where 5: "walk_and_finish s4 = Inr s5"
    using assms 1 2 3 4 unfolding main_def
    by (cases "walk_and_finish s4") (auto dest: walk_and_finish_Inl)
  have 6: "main w = (0, s5)" using 1 2 3 4 5 by (simp add: main_def)
  show ?thesis using 1 2 3 4 5 6 s1 by blast
qed

lemma action_event_name_event:
  "map (action_event s) ks = map (name_event (print_only s)) (map (deref (heap s)) ks)"
  by (simp add: action_event_def name_event_def)

lemma walk_and_finish_Inr:
  assumes "walk_and_finish s = Inr s'"
  shows "\<exists>evs. trace s' = trace s @ [total_line (totalfiles s), performing_line (print_only s)]
                   @ evs @ [Stderr (''Done'' @ newline), Sys_close]
      \<and> actions evs = map (name_event (print_only s)) (map (deref (heap s)) (postorder_keys (tree s)))
      \<and> (show_progress s = 0 \<longrightarrow>
           evs = map (name_event (print_only s)) (map (deref (heap s)) (postorder_keys (tree s))))
      \<and> (\<forall>e\<in>set evs. is_action e \<or> is_progress e)
      \<and> files s' = files_after s (map (deref (heap s)) (postorder_keys (tree s)))
      \<and> delete_count s' = delete_count s + of_nat (length (postorder_keys (tree s)))"
proof -
  let ?ks = "postorder_keys (tree s)"
  let ?s2 = "s\<lparr>trace := trace s @ [total_line (totalfiles s), performing_line (print_only s)]\<rparr>"
  have eq: "emit (Stderr (''Performing '' @ (if print_only (emit (Stderr (''Total files: '' @ dec_int (sint (totalfiles s)) @ newline)) s) \<noteq> 0 then ''print'' else ''delete'')
                 @ ''...'' @ newline)) (emit (Stderr (''Total files: '' @ dec_int (sint (totalfiles s)) @ newline)) s) = ?s2"
    by (simp add: emit_def total_line_def performing_line_def)
  obtain s3 where v: "visit_all ?ks ?s2 = Inr s3"
    and fin: "s' = (emit Sys_close (emit (Stderr (''Done'' @ newline)) s3))
           \<lparr>heap := free_linked_list (dirent_buffers_list (emit Sys_close (emit (Stderr (''Done'' @ newline)) s3)))
                       (heap (emit Sys_close (emit (Stderr (''Done'' @ newline)) s3))),
            dirent_buffers_list := [], tree := Null\<rparr>"
    using assms unfolding walk_and_finish_def Let_def eq twalk_def trecurse_visit_all
    by (cases "visit_all ?ks ?s2") (auto split: sum.splits)
  from visit_all_ok[OF visit_all_Inr_pre[OF v]] v obtain evs where
    f: "files s3 = files_after ?s2 (map (deref (heap ?s2)) ?ks)"
    and d: "delete_count s3 = delete_count ?s2 + of_nat (length ?ks)"
    and t: "trace s3 = trace ?s2 @ evs"
    and a: "actions evs = map (action_event ?s2) ?ks"
    and p: "show_progress ?s2 = 0 \<longrightarrow> evs = map (action_event ?s2) ?ks"
    and q: "\<forall>e\<in>set evs. is_action e \<or> is_progress e"
    by auto
  have ae: "map (action_event ?s2) ?ks = map (name_event (print_only s)) (map (deref (heap s)) ?ks)"
    by (simp add: action_event_name_event)
  have 1: "trace s' = trace s @ [total_line (totalfiles s), performing_line (print_only s)]
                   @ evs @ [Stderr (''Done'' @ newline), Sys_close]"
    using fin t by (simp add: emit_def)
  have 2: "actions evs = map (name_event (print_only s)) (map (deref (heap s)) ?ks)"
    using a ae by simp
  have 3: "show_progress s = 0 \<longrightarrow> evs = map (name_event (print_only s)) (map (deref (heap s)) ?ks)"
    using p ae by simp
  have 4: "files s' = files_after s (map (deref (heap s)) ?ks)"
    using fin f by (simp add: emit_def files_after_def)
  have 5: "delete_count s' = delete_count s + of_nat (length ?ks)"
    using fin d by (simp add: emit_def)
  show ?thesis
    by (intro exI[of _ evs] conjI) (rule 1 2 3 q 4 5)+
qed

lemma main_success_trace:
  assumes "fst (main w) = 0"
  shows "\<exists>bs evs.
      trace (snd (main w)) =
        [Sys_access (argv w ! 1), Sys_lstat (argv w ! 1), Sys_open (argv w ! 1), Sys_fchdir]
        @ map Sys_getdents bs
        @ [total_line (of_nat (length (regular_names (enumerated (dents0 w))))),
           performing_line (mode_word w)]
        @ evs @ [Stderr (''Done'' @ newline), Sys_close]
      \<and> length bs = Suc (leading_batches (dents0 w))
      \<and> actions evs = map (name_event (mode_word w)) (indexed_names w)
      \<and> (environ w ''DENTLS_PROGRESS'' = None \<longrightarrow> evs = map (name_event (mode_word w)) (indexed_names w))
      \<and> (\<forall>e\<in>set evs. is_action e \<or> is_progress e)
      \<and> files (snd (main w)) = (if mode_word w \<noteq> 0 then files0 w else files0 w - set (indexed_names w))
      \<and> ends_with_zero (dents0 w)
      \<and> (environ w ''DENTLS_DELETE'' = None \<or> environ w ''DENTLS_DELETE'' = Some ''delete'')"
proof -
  let ?rn = "regular_names (enumerated (dents0 w))"
  from main_success[OF assms] obtain s2 s3 s4 s5 where
    2: "read_env w (initial w) = Inr s2" and 3: "open_directory w s2 = Inr s3"
    and 4: "getdents_loop (dents0 w) s3 = Inr s4" and 5: "walk_and_finish s4 = Inr s5"
    and m: "main w = (0, s5)"
    by blast
  note e2 = read_env_Inr[OF 2]
  have env: "environ w ''DENTLS_DELETE'' = None \<or> environ w ''DENTLS_DELETE'' = Some ''delete''"
    using e2 by simp
  have po2: "print_only s2 = mode_word w" and sp2: "show_progress s2 = (if environ w ''DENTLS_PROGRESS'' = None then 0 else 1)"
    and f2: "files s2 = files0 w" and t2: "trace s2 = []" and h2: "heap s2 = []" and tr2: "tree s2 = Null"
    and tf2: "totalfiles s2 = 0"
    using e2 by (simp_all add: initial_def mode_word_def)
  note e3 = open_directory_Inr[OF 3]
  have po3: "print_only s3 = mode_word w" and sp3: "show_progress s3 = (if environ w ''DENTLS_PROGRESS'' = None then 0 else 1)"
    and f3: "files s3 = files0 w"
    and t3: "trace s3 = [Sys_access (argv w ! 1), Sys_lstat (argv w ! 1), Sys_open (argv w ! 1), Sys_fchdir]"
    and h3: "heap s3 = [[]]" and tr3: "tree s3 = Null" and b3: "buffer s3 = 0" and tf3: "totalfiles s3 = 0"
    using e3 po2 sp2 f2 t2 h2 tr2 tf2 by simp_all
  have fresh: "fresh_buffer s3" by (simp add: fresh_buffer_def h3 tr3 b3)
  note e4 = getdents_loop_ok[OF 4 fresh]
  have ix: "map_node (deref (heap s4)) (tree s4) = index_of ?rn"
    using e4 tr3 by (simp add: index_of_def)
  have nm: "map (deref (heap s4)) (postorder_keys (tree s4)) = indexed_names w"
    using ix postorder_keys_map[of "deref (heap s4)" "tree s4"] by (simp add: indexed_names_def)
  have tf4: "totalfiles s4 = of_nat (length ?rn)" using e4 tf3 by simp
  have po4: "print_only s4 = mode_word w" and sp4: "show_progress s4 = (if environ w ''DENTLS_PROGRESS'' = None then 0 else 1)"
    and f4: "files s4 = files0 w" and ez: "ends_with_zero (dents0 w)"
    using e4 po3 sp3 f3 by simp_all
  from e4 obtain bs where bs: "trace s4 = trace s3 @ map Sys_getdents bs" "length bs = Suc (leading_batches (dents0 w))"
    by blast
  from walk_and_finish_Inr[OF 5] obtain evs where
    t5: "trace s5 = trace s4 @ [total_line (totalfiles s4), performing_line (print_only s4)]
                   @ evs @ [Stderr (''Done'' @ newline), Sys_close]"
    and a5: "actions evs = map (name_event (print_only s4)) (map (deref (heap s4)) (postorder_keys (tree s4)))"
    and p5: "show_progress s4 = 0 \<longrightarrow>
           evs = map (name_event (print_only s4)) (map (deref (heap s4)) (postorder_keys (tree s4)))"
    and q5: "\<forall>e\<in>set evs. is_action e \<or> is_progress e"
    and f5: "files s5 = files_after s4 (map (deref (heap s4)) (postorder_keys (tree s4)))"
    by blast
  have A: "trace (snd (main w)) =
        [Sys_access (argv w ! 1), Sys_lstat (argv w ! 1), Sys_open (argv w ! 1), Sys_fchdir]
        @ map Sys_getdents bs
        @ [total_line (of_nat (length ?rn)), performing_line (mode_word w)]
        @ evs @ [Stderr (''Done'' @ newline), Sys_close]"
    using m t5 bs(1) t3 tf4 po4 by simp
  have B: "actions evs = map (name_event (mode_word w)) (indexed_names w)"
    using a5 nm po4 by simp
  have C: "environ w ''DENTLS_PROGRESS'' = None \<longrightarrow> evs = map (name_event (mode_word w)) (indexed_names w)"
    using p5 nm po4 sp4 by simp
  have D: "files (snd (main w)) = (if mode_word w \<noteq> 0 then files0 w else files0 w - set (indexed_names w))"
    using m f5 nm po4 f4 by (simp add: files_after_def)
  show ?thesis
    by (intro exI[of _ bs] exI[of _ evs] conjI) (rule A bs(2) B C q5 D ez env)+
qed

subsection \<open>The actions of a walk, however it ends\<close>

lemma first_blocked:
  "\<not> (distinct ns \<and> set ns \<subseteq> A) \<Longrightarrow>
     \<exists>ok n rest. ns = ok @ n # rest \<and> distinct ok \<and> set ok \<subseteq> A \<and> n \<notin> A - set ok"
proof (induction ns rule: rev_induct)
  case Nil
  then show ?case by simp
next
  case (snoc x xs)
  show ?case
  proof (cases "distinct xs \<and> set xs \<subseteq> A")
    case True
    then have "x \<notin> A - set xs" using snoc.prems by auto
    then show ?thesis using True
      by (intro exI[of _ xs] exI[of _ x] exI[of _ "[]"]) simp
  next
    case False
    then obtain ok n rest where "xs = ok @ n # rest" "distinct ok" "set ok \<subseteq> A" "n \<notin> A - set ok"
      using snoc.IH by blast
    then show ?thesis
      by (intro exI[of _ ok] exI[of _ n] exI[of _ "rest @ [x]"]) simp
  qed
qed

lemma visit_all_actions:
  "\<exists>m\<le>length ks. actions (trace (last_state (visit_all ks s)))
        = actions (trace s) @ map (action_event s) (take m ks)
      \<and> (isl (visit_all ks s) \<or> m = length ks)"
proof (cases "print_only s \<noteq> 0 \<or>
     (distinct (map (deref (heap s)) ks) \<and> set (map (deref (heap s)) ks) \<subseteq> files s - undeletable s)")
  case True
  from visit_all_ok[OF True] obtain s' evs where
    "visit_all ks s = Inr s'" "trace s' = trace s @ evs" "actions evs = map (action_event s) ks"
    by blast
  then show ?thesis
    by (intro exI[of _ "length ks"]) (simp add: last_state_def actions_def)
next
  case False
  then have po: "print_only s = 0" by simp
  let ?ns = "map (deref (heap s)) ks"
  have "\<not> (distinct ?ns \<and> set ?ns \<subseteq> files s - undeletable s)" using False by simp
  from first_blocked[OF this]
  have "\<exists>ok n rest. ?ns = ok @ n # rest \<and> distinct ok \<and> set ok \<subseteq> files s - undeletable s
      \<and> (n \<notin> files s - set ok \<or> n \<in> undeletable s)"
    by blast
  then obtain ok n rest where dec: "?ns = ok @ n # rest" and d: "distinct ok"
    and sub: "set ok \<subseteq> files s - undeletable s"
    and bad: "n \<notin> files s - set ok \<or> n \<in> undeletable s"
    by blast
  from visit_all_fail[OF po dec d sub bad] obtain s' evs where
    v: "visit_all ks s = Inl (1, s')"
    and t: "trace s' = trace s @ evs @ [Sys_unlink n, Stderr (''Failed to delete '' @ n),
           Perror ''unlink problem'' (if n \<in> files s - set ok then EACCES else ENOENT)]"
    and a: "actions evs = map Sys_unlink ok"
    by blast
  have tk: "take (Suc (length ok)) ?ns = ok @ [n]" using dec by simp
  have "map (action_event s) (take (Suc (length ok)) ks) = map Sys_unlink (take (Suc (length ok)) ?ns)"
    using po by (simp add: action_event_def take_map)
  then have m: "map (action_event s) (take (Suc (length ok)) ks) = map Sys_unlink ok @ [Sys_unlink n]"
    using tk by simp
  have len: "Suc (length ok) \<le> length ks"
    using arg_cong[OF dec, of length] by simp
  have "actions (trace s') = actions (trace s) @ map Sys_unlink ok @ [Sys_unlink n]"
    using t a by (simp add: actions_def is_action_def)
  then show ?thesis using v m len
    by (intro exI[of _ "Suc (length ok)"]) (simp add: last_state_def)
qed

subsection \<open>The streams of a completed run\<close>

lemma stdout_of_append: "stdout_of (xs @ ys) = stdout_of xs @ stdout_of ys"
  by (induction xs rule: stdout_of.induct) simp_all

lemma unlinked_append: "unlinked (xs @ ys) = unlinked xs @ unlinked ys"
  by (induction xs rule: unlinked.induct) simp_all

lemma stdout_of_actions: "stdout_of (actions xs) = stdout_of xs"
  by (induction xs rule: stdout_of.induct) (simp_all add: actions_def is_action_def)

lemma unlinked_actions: "unlinked (actions xs) = unlinked xs"
  by (induction xs rule: unlinked.induct) (simp_all add: actions_def is_action_def)

lemma stdout_of_name_events:
  "stdout_of (map (name_event p) ns) = (if p \<noteq> 0 then map (\<lambda>n. n @ newline) ns else [])"
  by (cases "p = 0"; induction ns; simp add: name_event_def)

lemma unlinked_name_events:
  "unlinked (map (name_event p) ns) = (if p \<noteq> 0 then [] else ns)"
  by (cases "p = 0"; induction ns; simp add: name_event_def)

lemma stdout_of_getdents: "stdout_of (map Sys_getdents bs) = []"
  by (induction bs) simp_all

lemma unlinked_getdents: "unlinked (map Sys_getdents bs) = []"
  by (induction bs) simp_all

lemma main_outputs:
  assumes "fst (main w) = 0"
  shows "stdout_of (trace (snd (main w)))
           = (if mode_word w \<noteq> 0 then map (\<lambda>n. n @ newline) (indexed_names w) else [])"
    and "unlinked (trace (snd (main w))) = (if mode_word w \<noteq> 0 then [] else indexed_names w)"
proof -
  from main_success_trace[OF assms] obtain bs evs where
    t: "trace (snd (main w)) =
        [Sys_access (argv w ! 1), Sys_lstat (argv w ! 1), Sys_open (argv w ! 1), Sys_fchdir]
        @ map Sys_getdents bs
        @ [total_line (of_nat (length (regular_names (enumerated (dents0 w))))),
           performing_line (mode_word w)]
        @ evs @ [Stderr (''Done'' @ newline), Sys_close]"
    and a: "actions evs = map (name_event (mode_word w)) (indexed_names w)"
    by blast
  have "stdout_of (trace (snd (main w))) = stdout_of (actions evs)"
    unfolding t stdout_of_actions
    by (simp add: stdout_of_append stdout_of_getdents total_line_def performing_line_def)
  then show "stdout_of (trace (snd (main w)))
           = (if mode_word w \<noteq> 0 then map (\<lambda>n. n @ newline) (indexed_names w) else [])"
    unfolding a stdout_of_name_events .
  have "unlinked (trace (snd (main w))) = unlinked (actions evs)"
    unfolding t unlinked_actions
    by (simp add: unlinked_append unlinked_getdents total_line_def performing_line_def)
  then show "unlinked (trace (snd (main w))) = (if mode_word w \<noteq> 0 then [] else indexed_names w)"
    unfolding a unlinked_name_events .
qed

lemma set_regular_names:
  "set (regular_names recs) =
     {d_name d |d. d \<in> set recs \<and> d_type d = DT_REG \<and> d_name d \<noteq> ''.'' \<and> d_name d \<noteq> ''..''}"
  by (auto simp: regular_names_def)

lemma set_indexed_names: "set (indexed_names w) = set (regular_names (enumerated (dents0 w)))"
  by (simp add: indexed_names_def set_index_of)

lemma distinct_indexed_names: "distinct (indexed_names w)"
  by (simp add: indexed_names_def distinct_index_of)

lemma count_list_distinct: "distinct xs \<Longrightarrow> count_list xs x = (if x \<in> set xs then 1 else 0)"
  by (induction xs) auto

lemma count_list_map_line: "count_list (map (\<lambda>n. n @ newline) xs) (x @ newline) = count_list xs x"
  by (induction xs) auto

lemma card_set_less: "\<not> distinct xs \<Longrightarrow> card (set xs) < length xs"
  using card_distinct[of xs] card_length[of xs] by linarith

lemma sint_of_nat_32: "n < 2 ^ 31 \<Longrightarrow> sint (word_of_nat n :: 32 word) = int n"
proof -
  assume a: "n < 2 ^ 31"
  have "sint (word_of_int (int n) :: 32 word) = signed_take_bit (LENGTH(32) - 1) (int n)"
    by (rule sint_sbintrunc')
  also have "\<dots> = int n"
    using a by (intro signed_take_bit_int_eq_self) simp_all
  finally show ?thesis by simp
qed

subsection \<open>Before the walk nothing is printed, removed or counted\<close>

text \<open>
  However a phase before the walk ends, it has left the mode and the directory alone and
  has written neither a name nor the line with the total.
\<close>

lemma last_state_simps: "last_state (Inl (c, s)) = s" "last_state (Inr s) = s"
  by (simp_all add: last_state_def)

lemma quiet_refl: "quiet s s"
  by (simp add: quiet_def)

lemma quiet_trans: "quiet s s1 \<Longrightarrow> quiet s1 s2 \<Longrightarrow> quiet s s2"
  by (simp add: quiet_def)

lemma check_args_quiet: "quiet s (last_state (check_args w s))"
  by (simp add: check_args_def exit_with_def emit_def last_state_def quiet_def actions_def
      is_action_def is_total_line_def)

lemma read_env_quiet:
  "read_env w s = Inl (c, s') \<Longrightarrow> quiet s s' \<and> c = 1 \<and> trace s' \<noteq> trace s"
  by (auto simp: read_env_def exit_with_def emit_def quiet_def actions_def
      is_action_def is_total_line_def split: option.splits if_splits)

lemma syscall_or_die_quiet:
  "ev \<notin> range Stdout \<union> range Sys_unlink \<union> range Stderr \<Longrightarrow>
     quiet s (last_state (syscall_or_die ev res msg s))"
  by (cases ev)
     (auto simp: syscall_or_die_def exit_with_def emit_def perror_def last_state_def quiet_def
        actions_def is_action_def is_total_line_def split: option.splits)

lemma open_directory_quiet: "quiet s (last_state (open_directory w s))"
  unfolding open_directory_def Let_def syscall_or_die_def malloc_def
    linked_list_prepend_override_def exit_with_def perror_def emit_def last_state_def quiet_def
    actions_def is_action_def is_total_line_def
  by (simp split: option.splits)

lemma scan_records_quiet: "quiet s (last_state (scan_records recs i s))"
proof (induction recs arbitrary: i s)
  case Nil
  then show ?case by (simp add: last_state_def quiet_def)
next
  case (Cons dent rest)
  show ?case
  proof (cases "\<not> (strcmp ''.'' (d_name dent) = 0 \<or> strcmp ''..'' (d_name dent) = 0) \<and> d_type dent = DT_REG")
    case False
    then have "scan_records (dent # rest) i s = scan_records rest (i + 1) s" by auto
    then show ?thesis using Cons.IH[where s = s and i = "i + 1"] by simp
  next
    case True
    show ?thesis
    proof (cases "tsearch (buffer s, i) (tree s) (compare_fnames (heap s)) (mem s)")
      case None
      then show ?thesis using True
        by (simp add: exit_with_def emit_def last_state_def quiet_def actions_def is_action_def
            is_total_line_def)
    next
      case (Some a)
      obtain t m where a: "a = (t, m)" by (cases a)
      let ?s1 = "s\<lparr>tree := t, mem := m, totalfiles := totalfiles s + 1\<rparr>"
      have "scan_records (dent # rest) i s = scan_records rest (i + 1) ?s1"
        using True Some a by simp
      moreover have "quiet s ?s1" by (simp add: quiet_def)
      ultimately show ?thesis
        using quiet_trans[OF _ Cons.IH[where s = ?s1 and i = "i + 1"]] by simp
    qed
  qed
qed

lemma getdents_loop_quiet: "quiet s (last_state (getdents_loop ds s))"
proof (induction ds arbitrary: s)
  case Nil
  then show ?case
    by (simp add: emit_def last_state_def quiet_def actions_def is_action_def is_total_line_def)
next
  case (Cons d rest)
  show ?case
  proof (cases d)
    case (GD_error e)
    then show ?thesis
      by (simp add: exit_with_def perror_def emit_def last_state_def quiet_def actions_def
          is_action_def is_total_line_def)
  next
    case (GD_records recs)
    show ?thesis
    proof (cases "recs = []")
      case True
      then show ?thesis using GD_records
        by (simp add: emit_def last_state_def quiet_def actions_def is_action_def is_total_line_def)
    next
      case False
      let ?s1 = "(emit (Sys_getdents (buffer s)) s)\<lparr>heap := (heap s)[buffer s := recs]\<rparr>"
      have q1: "quiet s ?s1"
        by (simp add: emit_def quiet_def actions_def is_action_def is_total_line_def)
      have unf: "getdents_loop (d # rest) s =
        (case scan_records recs 0 ?s1 of
           Inl x \<Rightarrow> Inl x
         | Inr s2 \<Rightarrow>
        (case malloc s2 of
           (None, s3) \<Rightarrow> exit_with 1 (perror ''malloc failed'' s3)
         | (Some b, s3) \<Rightarrow>
        (case linked_list_prepend_override b (s3\<lparr>buffer := b\<rparr>) of
           Inl x \<Rightarrow> Inl x
         | Inr s4 \<Rightarrow> getdents_loop rest s4)))"
        using GD_records False by (simp add: Let_def emit_def)
      show ?thesis
      proof (cases "scan_records recs 0 ?s1")
        case (Inl x)
        then have "last_state (getdents_loop (d # rest) s) = last_state (scan_records recs 0 ?s1)"
          using unf by simp
        then show ?thesis using quiet_trans[OF q1 scan_records_quiet[of ?s1 recs 0]] by simp
      next
        case (Inr s2)
        then have q2: "quiet s s2"
          using quiet_trans[OF q1 scan_records_quiet[of ?s1 recs 0]] by (simp add: last_state_simps)
        show ?thesis
        proof (cases "mem s2 = 0")
          case True
          then have "getdents_loop (d # rest) s = Inl (1, perror ''malloc failed'' (s2\<lparr>errno_var := ENOMEM\<rparr>))"
            using unf Inr by (simp add: malloc_def exit_with_def)
          moreover have "quiet s2 (perror ''malloc failed'' (s2\<lparr>errno_var := ENOMEM\<rparr>))"
            by (simp add: perror_def emit_def quiet_def actions_def is_action_def is_total_line_def)
          ultimately show ?thesis using quiet_trans[OF q2] by (simp add: last_state_simps)
        next
          case False
          let ?s3 = "s2\<lparr>mem := mem s2 - 1, heap := heap s2 @ [[]], buffer := length (heap s2)\<rparr>"
          have q3: "quiet s ?s3" using q2 by (simp add: quiet_def)
          have unf2: "getdents_loop (d # rest) s =
            (case linked_list_prepend_override (length (heap s2)) ?s3 of
               Inl x \<Rightarrow> Inl x | Inr s4 \<Rightarrow> getdents_loop rest s4)"
            using unf Inr False by (simp add: malloc_def)
          show ?thesis
          proof (cases "mem ?s3 = 0")
            case True
            then have "getdents_loop (d # rest) s = Inl (1, perror ''malloc'' (?s3\<lparr>errno_var := ENOMEM\<rparr>))"
              using unf2 by (simp add: linked_list_prepend_override_def exit_with_def)
            moreover have "quiet ?s3 (perror ''malloc'' (?s3\<lparr>errno_var := ENOMEM\<rparr>))"
              by (simp add: perror_def emit_def quiet_def actions_def is_action_def is_total_line_def)
            ultimately show ?thesis using quiet_trans[OF q3] by (simp add: last_state_simps)
          next
            case F3: False
            let ?s4 = "?s3\<lparr>mem := mem ?s3 - 1, dirent_buffers_list := length (heap s2) # dirent_buffers_list ?s3\<rparr>"
            have "getdents_loop (d # rest) s = getdents_loop rest ?s4"
              using unf2 F3 by (simp add: linked_list_prepend_override_def)
            moreover have "quiet s ?s4" using q3 by (simp add: quiet_def)
            ultimately show ?thesis using quiet_trans[OF _ Cons.IH[of ?s4]] by simp
          qed
        qed
      qed
    qed
  qed
qed

lemma is_progress_not_total: "is_progress e \<Longrightarrow> \<not> is_total_line e"
proof (cases e)
  case (Stderr x)
  assume "is_progress e"
  then obtain c cs where "x = c # cs" "c \<in> set (''.0123456789'' @ newline)"
    using Stderr by (cases x) (auto simp: is_progress_def)
  then show ?thesis using Stderr by (auto simp: is_total_line_def newline_def)
qed (simp_all add: is_total_line_def)

lemma is_action_not_total: "is_action e \<Longrightarrow> \<not> is_total_line e"
  by (cases e) (simp_all add: is_action_def is_total_line_def)

lemma filter_total_walk: "\<forall>e\<in>set evs. is_action e \<or> is_progress e \<Longrightarrow> filter is_total_line evs = []"
  by (induction evs) (auto simp: is_progress_not_total is_action_not_total)

lemma visit_all_outcome:
  "\<exists>evs. trace (last_state (visit_all ks s)) = trace s @ evs
     \<and> filter is_total_line evs = []
     \<and> print_only (last_state (visit_all ks s)) = print_only s
     \<and> (print_only s \<noteq> 0 \<longrightarrow> files (last_state (visit_all ks s)) = files s \<and> unlinked evs = [])"
proof (cases "print_only s \<noteq> 0 \<or>
     (distinct (map (deref (heap s)) ks) \<and> set (map (deref (heap s)) ks) \<subseteq> files s - undeletable s)")
  case True
  from visit_all_ok[OF True] obtain s' evs where
    v: "visit_all ks s = Inr s'" and fr: "walk_frame s s'"
    and f: "files s' = files_after s (map (deref (heap s)) ks)"
    and t: "trace s' = trace s @ evs" and a: "actions evs = map (action_event s) ks"
    and q: "\<forall>e\<in>set evs. is_action e \<or> is_progress e"
    by blast
  have 1: "trace (last_state (visit_all ks s)) = trace s @ evs" using v t by (simp add: last_state_simps)
  have 2: "filter is_total_line evs = []" using q by (rule filter_total_walk)
  have 3: "print_only (last_state (visit_all ks s)) = print_only s"
    using v fr by (simp add: last_state_simps walk_frame_def)
  have "unlinked (actions evs) = unlinked (map (name_event (print_only s)) (map (deref (heap s)) ks))"
    unfolding a action_event_name_event ..
  then have u: "print_only s \<noteq> 0 \<longrightarrow> unlinked evs = []"
    unfolding unlinked_actions unlinked_name_events by simp
  have 4: "print_only s \<noteq> 0 \<longrightarrow> files (last_state (visit_all ks s)) = files s \<and> unlinked evs = []"
    using v f u by (simp add: last_state_simps files_after_def)
  show ?thesis by (intro exI[of _ evs] conjI) (rule 1 2 3 4)+
next
  case False
  then have po: "print_only s = 0" by simp
  let ?ns = "map (deref (heap s)) ks"
  have "\<not> (distinct ?ns \<and> set ?ns \<subseteq> files s - undeletable s)" using False by simp
  from first_blocked[OF this]
  obtain ok n rest where dec: "?ns = ok @ n # rest" and d: "distinct ok"
    and sub: "set ok \<subseteq> files s - undeletable s"
    and bad: "n \<notin> files s - set ok \<or> n \<in> undeletable s"
    by blast
  let ?tail = "[Sys_unlink n, Stderr (''Failed to delete '' @ n),
           Perror ''unlink problem'' (if n \<in> files s - set ok then EACCES else ENOENT)]"
  from visit_all_fail[OF po dec d sub bad] obtain s' evs where
    v: "visit_all ks s = Inl (1, s')"
    and t: "trace s' = trace s @ evs @ ?tail"
    and q: "\<forall>e\<in>set evs. is_action e \<or> is_progress e" and p: "print_only s' = 0"
    by blast
  have 1: "trace (last_state (visit_all ks s)) = trace s @ (evs @ ?tail)"
    using v t by (simp add: last_state_simps)
  have 2: "filter is_total_line (evs @ ?tail) = []"
    using filter_total_walk[OF q] by (simp add: is_total_line_def)
  have 3: "print_only (last_state (visit_all ks s)) = print_only s"
    using v p po by (simp add: last_state_simps)
  have 4: "print_only s \<noteq> 0 \<longrightarrow> files (last_state (visit_all ks s)) = files s \<and> unlinked (evs @ ?tail) = []"
    using po by simp
  show ?thesis by (intro exI[of _ "evs @ ?tail"] conjI) (rule 1 2 3 4)+
qed

lemma walk_and_finish_outcome:
  "\<exists>evs. trace (last_state (walk_and_finish s))
        = trace s @ total_line (totalfiles s) # performing_line (print_only s) # evs
     \<and> filter is_total_line evs = []
     \<and> print_only (last_state (walk_and_finish s)) = print_only s
     \<and> (print_only s \<noteq> 0 \<longrightarrow> files (last_state (walk_and_finish s)) = files s \<and> unlinked evs = [])"
proof -
  let ?ks = "postorder_keys (tree s)"
  let ?s2 = "s\<lparr>trace := trace s @ [total_line (totalfiles s), performing_line (print_only s)]\<rparr>"
  have eq: "emit (Stderr (''Performing '' @ (if print_only (emit (Stderr (''Total files: '' @ dec_int (sint (totalfiles s)) @ newline)) s) \<noteq> 0 then ''print'' else ''delete'')
                 @ ''...'' @ newline)) (emit (Stderr (''Total files: '' @ dec_int (sint (totalfiles s)) @ newline)) s) = ?s2"
    by (simp add: emit_def total_line_def performing_line_def)
  from visit_all_outcome[of ?ks ?s2] obtain evs where
    t: "trace (last_state (visit_all ?ks ?s2)) = trace ?s2 @ evs"
    and nt: "filter is_total_line evs = []"
    and p: "print_only (last_state (visit_all ?ks ?s2)) = print_only ?s2"
    and f: "print_only ?s2 \<noteq> 0 \<longrightarrow> files (last_state (visit_all ?ks ?s2)) = files ?s2 \<and> unlinked evs = []"
    by blast
  show ?thesis
  proof (cases "visit_all ?ks ?s2")
    case (Inl x)
    then have "walk_and_finish s = Inl x"
      unfolding walk_and_finish_def Let_def eq twalk_def trecurse_visit_all by simp
    then have l: "last_state (walk_and_finish s) = last_state (visit_all ?ks ?s2)"
      using Inl by simp
    show ?thesis
      unfolding l using t nt p f by (intro exI[of _ evs]) simp
  next
    case (Inr s3)
    let ?s5 = "(emit Sys_close (emit (Stderr (''Done'' @ newline)) s3))
           \<lparr>heap := free_linked_list (dirent_buffers_list (emit Sys_close (emit (Stderr (''Done'' @ newline)) s3)))
                       (heap (emit Sys_close (emit (Stderr (''Done'' @ newline)) s3))),
            dirent_buffers_list := [], tree := Null\<rparr>"
    have "walk_and_finish s = Inr ?s5"
      unfolding walk_and_finish_def Let_def eq twalk_def trecurse_visit_all using Inr by simp
    then have l: "last_state (walk_and_finish s) = ?s5" by (simp add: last_state_simps)
    have s3: "last_state (visit_all ?ks ?s2) = s3" using Inr by (simp add: last_state_simps)
    show ?thesis
      unfolding l using t nt p f unfolding s3
      by (intro exI[of _ "evs @ [Stderr (''Done'' @ newline), Sys_close]"])
         (simp add: emit_def is_total_line_def unlinked_append)
  qed
qed

lemma main_pre_walk:
  "main w = (case pre_walk w of
               Inl x \<Rightarrow> x
             | Inr s4 \<Rightarrow> (case walk_and_finish s4 of Inl x \<Rightarrow> x | Inr s5 \<Rightarrow> (0, s5)))"
  by (simp add: main_def pre_walk_def split: sum.splits)

lemma check_args_ok: "args_ok w \<Longrightarrow> check_args w s = Inr s"
  by (cases "argv w ! 1") (auto simp: check_args_def args_ok_def)

lemma check_args_bad:
  "\<not> args_ok w \<Longrightarrow>
     check_args w s =
       (if length (argv w) < 2 then
          Inl (1, s\<lparr>trace := trace s @ [Stderr (''You must supply a valid directory path.'' @ newline)]\<rparr>)
        else
          Inl (- 1, s\<lparr>trace := trace s @
            [Stderr (''Usage: '' @ argv w ! 0 @ '' <directory>'' @ newline),
             Stderr (''  For safety, <directory> must be fully-qualified (i.e., start with /).'' @ newline),
             Stderr (''  Env: Set DENTLS_DELETE=delete to delete instead of print.'' @ newline),
             Stderr (''  Env: Set DENTLS_PROGRESS to show progress on stderr.'' @ newline)]\<rparr>))"
  by (cases "argv w ! 1") (auto simp: check_args_def args_ok_def exit_with_def emit_def)

lemma pre_walk_Inl: "pre_walk w = Inl (c, s') \<Longrightarrow> c \<noteq> 0"
  unfolding pre_walk_def
  by (auto split: sum.splits
      dest: check_args_Inl read_env_Inl open_directory_Inl getdents_loop_Inl)

lemma pre_walk_last:
  "files (last_state (pre_walk w)) = files0 w
   \<and> actions (trace (last_state (pre_walk w))) = []
   \<and> filter is_total_line (trace (last_state (pre_walk w))) = []
   \<and> print_only (last_state (pre_walk w))
       = (if args_ok w \<and> environ w ''DENTLS_DELETE'' = Some ''delete'' then 0 else 1)"
proof -
  let ?P = "\<lambda>s'. files s' = files0 w \<and> actions (trace s') = []
     \<and> filter is_total_line (trace s') = []
     \<and> print_only s' = (if args_ok w \<and> environ w ''DENTLS_DELETE'' = Some ''delete'' then 0 else 1)"
  have q0: "files (initial w) = files0 w" "actions (trace (initial w)) = []"
    "filter is_total_line (trace (initial w)) = []" "print_only (initial w) = 1"
    by (simp_all add: initial_def actions_def)
  show ?thesis
  proof (cases "args_ok w")
    case False
    then show ?thesis
      unfolding pre_walk_def check_args_bad[OF False]
      using q0 by (simp add: last_state_def actions_def is_action_def is_total_line_def)
  next
    case True
    note ca = check_args_ok[OF True, of "initial w"]
    show ?thesis
    proof (cases "read_env w (initial w)")
      case (Inl x)
      obtain c s' where x: "x = (c, s')" by (cases x)
      have q: "quiet (initial w) s'" using read_env_quiet Inl x by blast
      have ne: "environ w ''DENTLS_DELETE'' \<noteq> Some ''delete''"
        using Inl by (auto simp: read_env_def split: option.splits if_splits)
      have "last_state (pre_walk w) = s'"
        unfolding pre_walk_def ca using Inl x by (simp add: last_state_simps)
      then show ?thesis using q q0 ne by (simp add: quiet_def)
    next
      case (Inr s2)
      note e2 = read_env_Inr[OF Inr]
      have p2: "?P s2"
        using e2 q0 True by (auto simp: initial_def actions_def)
      let ?r3 = "open_directory w s2"
      have q3: "quiet s2 (last_state ?r3)" by (rule open_directory_quiet)
      show ?thesis
      proof (cases ?r3)
        case (Inl x)
        then have "last_state (pre_walk w) = last_state ?r3"
          unfolding pre_walk_def ca using Inr by simp
        then show ?thesis using q3 p2 by (simp add: quiet_def)
      next
        case I3: (Inr s3)
        have q3': "quiet s2 s3" using q3 I3 by (simp add: last_state_simps)
        have "last_state (pre_walk w) = last_state (getdents_loop (dents0 w) s3)"
          unfolding pre_walk_def ca using Inr I3 by simp
        then show ?thesis
          using quiet_trans[OF q3' getdents_loop_quiet[of s3 "dents0 w"]] p2
          by (simp add: quiet_def)
      qed
    qed
  qed
qed

lemma pre_walk_Inr:
  assumes "pre_walk w = Inr s4"
  shows "args_ok w
     \<and> (environ w ''DENTLS_DELETE'' = None \<or> environ w ''DENTLS_DELETE'' = Some ''delete'')
     \<and> print_only s4 = mode_word w
     \<and> totalfiles s4 = of_nat (length (regular_names (enumerated (dents0 w))))
     \<and> map (deref (heap s4)) (postorder_keys (tree s4)) = indexed_names w
     \<and> ends_with_zero (dents0 w)"
proof -
  let ?rn = "regular_names (enumerated (dents0 w))"
  have ok: "args_ok w"
  proof (rule ccontr)
    assume "\<not> args_ok w"
    from check_args_bad[OF this, of "initial w"] assms show False
      by (simp add: pre_walk_def split: if_splits)
  qed
  note ca = check_args_ok[OF ok, of "initial w"]
  from assms obtain s2 s3 where
    2: "read_env w (initial w) = Inr s2" and 3: "open_directory w s2 = Inr s3"
    and 4: "getdents_loop (dents0 w) s3 = Inr s4"
    unfolding pre_walk_def ca by (auto split: sum.splits)
  note e2 = read_env_Inr[OF 2]
  have env: "environ w ''DENTLS_DELETE'' = None \<or> environ w ''DENTLS_DELETE'' = Some ''delete''"
    using e2 by simp
  have po2: "print_only s2 = mode_word w" and h2: "heap s2 = []" and tr2: "tree s2 = Null"
    and tf2: "totalfiles s2 = 0"
    using e2 by (simp_all add: initial_def mode_word_def)
  note e3 = open_directory_Inr[OF 3]
  have po3: "print_only s3 = mode_word w"
    and h3: "heap s3 = [[]]" and tr3: "tree s3 = Null" and b3: "buffer s3 = 0" and tf3: "totalfiles s3 = 0"
    using e3 po2 h2 tr2 tf2 by simp_all
  have fresh: "fresh_buffer s3" by (simp add: fresh_buffer_def h3 tr3 b3)
  note e4 = getdents_loop_ok[OF 4 fresh]
  have ix: "map_node (deref (heap s4)) (tree s4) = index_of ?rn"
    using e4 tr3 by (simp add: index_of_def)
  have nm: "map (deref (heap s4)) (postorder_keys (tree s4)) = indexed_names w"
    using ix postorder_keys_map[of "deref (heap s4)" "tree s4"] by (simp add: indexed_names_def)
  have tf4: "totalfiles s4 = of_nat (length ?rn)" using e4 tf3 by simp
  have po4: "print_only s4 = mode_word w" and ez: "ends_with_zero (dents0 w)"
    using e4 po3 by simp_all
  show ?thesis using ok env po4 tf4 nm ez by blast
qed

lemma main_last_state:
  "snd (main w) = (case pre_walk w of
                     Inl x \<Rightarrow> last_state (pre_walk w)
                   | Inr s4 \<Rightarrow> last_state (walk_and_finish s4))"
  by (auto simp: main_pre_walk last_state_def split: sum.splits)

lemma main_print_only:
  "print_only (snd (main w))
     = (if args_ok w \<and> environ w ''DENTLS_DELETE'' = Some ''delete'' then 0 else 1)"
proof (cases "pre_walk w")
  case (Inl x)
  then show ?thesis using pre_walk_last[of w] by (simp add: main_last_state)
next
  case (Inr s4)
  from walk_and_finish_outcome[of s4]
  have "print_only (last_state (walk_and_finish s4)) = print_only s4" by blast
  then show ?thesis using Inr pre_walk_last[of w] by (simp add: main_last_state last_state_simps)
qed

lemma main_report_only:
  assumes "environ w ''DENTLS_DELETE'' = None"
  shows "files (snd (main w)) = files0 w \<and> unlinked (trace (snd (main w))) = []"
proof (cases "pre_walk w")
  case (Inl x)
  have "unlinked (actions (trace (last_state (pre_walk w)))) = []"
    using pre_walk_last[of w] by simp
  then show ?thesis using Inl pre_walk_last[of w] by (simp add: main_last_state unlinked_actions)
next
  case (Inr s4)
  have l: "last_state (pre_walk w) = s4" using Inr by (simp add: last_state_simps)
  have p: "print_only s4 \<noteq> 0" "files s4 = files0 w" "actions (trace s4) = []"
    using pre_walk_last[of w] assms unfolding l by simp_all
  have u: "unlinked (trace s4) = []" using p(3) unlinked_actions[of "trace s4"] by simp
  from walk_and_finish_outcome[of s4] p(1) obtain evs where
    "trace (last_state (walk_and_finish s4))
        = trace s4 @ total_line (totalfiles s4) # performing_line (print_only s4) # evs"
    "files (last_state (walk_and_finish s4)) = files s4" "unlinked evs = []"
    by blast
  then show ?thesis
    using Inr p(2) u
    by (simp add: main_last_state unlinked_append total_line_def performing_line_def)
qed

lemma main_bad_args:
  assumes "\<not> args_ok w"
  shows "main w =
       (if length (argv w) < 2 then
          (1, (initial w)\<lparr>trace := [Stderr (''You must supply a valid directory path.'' @ newline)]\<rparr>)
        else
          (- 1, (initial w)\<lparr>trace :=
            [Stderr (''Usage: '' @ argv w ! 0 @ '' <directory>'' @ newline),
             Stderr (''  For safety, <directory> must be fully-qualified (i.e., start with /).'' @ newline),
             Stderr (''  Env: Set DENTLS_DELETE=delete to delete instead of print.'' @ newline),
             Stderr (''  Env: Set DENTLS_PROGRESS to show progress on stderr.'' @ newline)]\<rparr>))"
  unfolding main_def check_args_bad[OF assms] by (simp add: initial_def)

lemma main_bad_mode:
  assumes "args_ok w" and "environ w ''DENTLS_DELETE'' = Some v" and "v \<noteq> ''delete''"
  shows "main w = (1, (initial w)\<lparr>trace :=
      [Stderr (''If you'' @ [CHR 0x27] @ ''d like to delete files, please set DENTLS_DELETE to ''
                        @ [CHR 0x27] @ ''delete'' @ [CHR 0x27] @ '', *EXACTLY*.'' @ newline),
       Stderr (''If you did not intend to run deletes, please unset the variable entirely.'' @ newline)]\<rparr>)"
  unfolding main_def check_args_ok[OF assms(1)]
  using assms(2,3) by (simp add: read_env_def strcmp_eq_0 exit_with_def emit_def initial_def)

subsection \<open>The calls of the enumeration\<close>

text \<open>
  The loop asks once more than it got non-empty batches. With memory for two blocks per
  batch and one node per regular record, it gets through any sequence of non-empty batches.
\<close>

lemma scan_records_frame: "scan_records recs i s = Inr s' \<Longrightarrow> scan_frame s s'"
proof (induction recs arbitrary: i s)
  case Nil
  then show ?case by (simp add: scan_frame_def)
next
  case (Cons dent rest)
  show ?case
  proof (cases "\<not> (strcmp ''.'' (d_name dent) = 0 \<or> strcmp ''..'' (d_name dent) = 0) \<and> d_type dent = DT_REG")
    case False
    then have "scan_records rest (i + 1) s = Inr s'" using Cons.prems by (auto split: if_splits)
    then show ?thesis by (rule Cons.IH)
  next
    case True
    then obtain t m where
      rec: "scan_records rest (i + 1) (s\<lparr>tree := t, mem := m, totalfiles := totalfiles s + 1\<rparr>) = Inr s'"
      using Cons.prems by (auto simp: exit_with_def split: option.splits)
    from Cons.IH[OF rec] show ?thesis by (simp add: scan_frame_def)
  qed
qed

lemma getdents_loop_calls:
  assumes "getdents_loop ds s = Inr s'"
  shows "ends_with_zero ds
       \<and> (\<exists>bs. trace s' = trace s @ map Sys_getdents bs \<and> length bs = Suc (leading_batches ds))"
  using assms
proof (induction ds arbitrary: s)
  case Nil
  then show ?case by (auto simp: emit_def intro: exI[of _ "[buffer s]"])
next
  case (Cons d rest)
  show ?case
  proof (cases d)
    case (GD_error e)
    then show ?thesis using Cons.prems by (simp add: exit_with_def)
  next
    case (GD_records recs)
    show ?thesis
    proof (cases "recs = []")
      case True
      then show ?thesis using Cons.prems GD_records
        by (auto simp: emit_def intro: exI[of _ "[buffer s]"])
    next
      case False
      let ?s1 = "(emit (Sys_getdents (buffer s)) s)\<lparr>heap := (heap s)[buffer s := recs]\<rparr>"
      from Cons.prems GD_records False
      obtain s2 where scan: "scan_records recs 0 ?s1 = Inr s2"
        and rest1: "(case malloc s2 of
           (None, s3) \<Rightarrow> exit_with 1 (perror ''malloc failed'' s3)
         | (Some b, s3) \<Rightarrow>
        (case linked_list_prepend_override b (s3\<lparr>buffer := b\<rparr>) of
           Inl x \<Rightarrow> Inl x
         | Inr s4 \<Rightarrow> getdents_loop rest s4)) = Inr s'"
        by (auto simp: Let_def emit_def split: sum.splits)
      have m2: "mem s2 \<noteq> 0" using rest1 by (auto simp: malloc_def exit_with_def split: if_splits)
      let ?s3 = "s2\<lparr>mem := mem s2 - 1, heap := heap s2 @ [[]], buffer := length (heap s2)\<rparr>"
      have rest2: "(case linked_list_prepend_override (length (heap s2)) ?s3 of
           Inl x \<Rightarrow> Inl x | Inr s4 \<Rightarrow> getdents_loop rest s4) = Inr s'"
        using rest1 m2 by (simp add: malloc_def)
      have m3: "mem ?s3 \<noteq> 0"
        using rest2 by (auto simp: linked_list_prepend_override_def exit_with_def split: if_splits)
      let ?s4 = "?s3\<lparr>mem := mem ?s3 - 1, dirent_buffers_list := length (heap s2) # dirent_buffers_list ?s3\<rparr>"
      have loop: "getdents_loop rest ?s4 = Inr s'"
        using rest2 m3 by (simp add: linked_list_prepend_override_def)
      have tr2: "trace s2 = trace s @ [Sys_getdents (buffer s)]"
        using scan_records_frame[OF scan] by (simp add: scan_frame_def emit_def)
      from Cons.IH[OF loop] obtain bs where
        ez: "ends_with_zero rest" and bs: "trace s' = trace ?s4 @ map Sys_getdents bs"
        "length bs = Suc (leading_batches rest)"
        by blast
      have "trace s' = trace s @ map Sys_getdents (buffer s # bs)" using bs(1) tr2 by simp
      moreover have "length (buffer s # bs) = Suc (leading_batches (d # rest))"
        using bs(2) GD_records False by simp
      moreover have "ends_with_zero (d # rest)" using ez GD_records False by simp
      ultimately show ?thesis by blast
    qed
  qed
qed

lemma tsearch_enough:
  "0 < m \<Longrightarrow> \<exists>t' m'. tsearch k t c m = Some (t', m') \<and> m \<le> Suc m'"
proof (induction t)
  case Null
  then show ?case by simp
next
  case (Node l x r)
  from Node obtain l' ml r' mr where
    "tsearch k l c m = Some (l', ml)" "m \<le> Suc ml" "tsearch k r c m = Some (r', mr)" "m \<le> Suc mr"
    by blast
  then show ?case by (simp add: Let_def)
qed

lemma scan_records_enough:
  "length (regular_names recs) \<le> mem s \<Longrightarrow>
     \<exists>s'. scan_records recs i s = Inr s' \<and> mem s \<le> mem s' + length (regular_names recs)"
proof (induction recs arbitrary: i s)
  case Nil
  then show ?case by simp
next
  case (Cons dent rest)
  show ?case
  proof (cases "\<not> (strcmp ''.'' (d_name dent) = 0 \<or> strcmp ''..'' (d_name dent) = 0) \<and> d_type dent = DT_REG")
    case False
    then have e: "scan_records (dent # rest) i s = scan_records rest (i + 1) s"
      and r: "regular_names (dent # rest) = regular_names rest"
      by (auto simp: regular_names_Cons)
    show ?thesis unfolding e r using Cons.IH[of s "i + 1"] Cons.prems r by simp
  next
    case True
    then have r: "regular_names (dent # rest) = d_name dent # regular_names rest"
      by (simp add: regular_names_Cons)
    then have "0 < mem s" using Cons.prems by simp
    from tsearch_enough[OF this, of "(buffer s, i)" "tree s" "compare_fnames (heap s)"] obtain t m where
      ts: "tsearch (buffer s, i) (tree s) (compare_fnames (heap s)) (mem s) = Some (t, m)"
      and m: "mem s \<le> Suc m"
      by blast
    let ?s1 = "s\<lparr>tree := t, mem := m, totalfiles := totalfiles s + 1\<rparr>"
    have e: "scan_records (dent # rest) i s = scan_records rest (i + 1) ?s1"
      using True ts by simp
    have "length (regular_names rest) \<le> mem ?s1" using Cons.prems r m by simp
    from Cons.IH[OF this, of "i + 1"] obtain s' where
      "scan_records rest (i + 1) ?s1 = Inr s'" "mem ?s1 \<le> mem s' + length (regular_names rest)"
      by blast
    then show ?thesis unfolding e r using m by (intro exI[of _ s']) simp
  qed
qed

lemma getdents_loop_forward:
  assumes "\<forall>b\<in>set bs. b \<noteq> []"
      and "2 * length bs + length (regular_names (concat bs)) \<le> mem s"
  shows "\<exists>s1 addrs. (\<forall>tail. getdents_loop (map GD_records bs @ tail) s = getdents_loop tail s1)
       \<and> trace s1 = trace s @ map Sys_getdents addrs \<and> length addrs = length bs"
  using assms
proof (induction bs arbitrary: s)
  case Nil
  then show ?case by (intro exI[of _ s] exI[of _ "[]"]) simp
next
  case (Cons b bs)
  have ne: "b \<noteq> []" using Cons.prems(1) by simp
  let ?s1 = "(emit (Sys_getdents (buffer s)) s)\<lparr>heap := (heap s)[buffer s := b]\<rparr>"
  have rn: "regular_names (concat (b # bs)) = regular_names b @ regular_names (concat bs)"
    by (simp add: regular_names_append)
  have "length (regular_names b) \<le> mem ?s1" using Cons.prems(2) rn by (simp add: emit_def)
  from scan_records_enough[OF this, of 0] obtain s2 where
    scan: "scan_records b 0 ?s1 = Inr s2" and m2: "mem ?s1 \<le> mem s2 + length (regular_names b)"
    by blast
  have m2': "2 * length bs + length (regular_names (concat bs)) + 2 \<le> mem s2"
    using m2 Cons.prems(2) rn by (simp add: emit_def)
  let ?s3 = "s2\<lparr>mem := mem s2 - 1, heap := heap s2 @ [[]], buffer := length (heap s2)\<rparr>"
  let ?s4 = "?s3\<lparr>mem := mem ?s3 - 1, dirent_buffers_list := length (heap s2) # dirent_buffers_list ?s3\<rparr>"
  have step: "getdents_loop (GD_records b # rest) s = getdents_loop rest ?s4" for rest
    using ne scan m2'
    by (simp add: Let_def emit_def malloc_def linked_list_prepend_override_def)
  have tr2: "trace s2 = trace s @ [Sys_getdents (buffer s)]"
    using scan_records_frame[OF scan] by (simp add: scan_frame_def emit_def)
  have "2 * length bs + length (regular_names (concat bs)) \<le> mem ?s4" using m2' by simp
  from Cons.IH[OF _ this] Cons.prems(1) obtain s1 addrs where
    1: "\<forall>tail. getdents_loop (map GD_records bs @ tail) ?s4 = getdents_loop tail s1"
    and 2: "trace s1 = trace ?s4 @ map Sys_getdents addrs" and 3: "length addrs = length bs"
    by auto
  show ?case
    using 1 2 3 step tr2
    by (intro exI[of _ s1] exI[of _ "buffer s # addrs"]) simp
qed

lemma is_total_line_total_line: "is_total_line (total_line n)"
  by (simp add: is_total_line_def total_line_def)

lemma not_total_performing: "\<not> is_total_line (performing_line p)"
  by (simp add: is_total_line_def performing_line_def)

lemma main_total_line:
  "length (filter is_total_line (trace (snd (main w)))) \<le> 1
   \<and> (fst (main w) = 0 \<or> actions (trace (snd (main w))) \<noteq> [] \<longrightarrow>
        (\<exists>pre evs. trace (snd (main w))
            = pre @ total_line (of_nat (length (regular_names (enumerated (dents0 w))))) # evs
          \<and> actions pre = [] \<and> filter is_total_line pre = [] \<and> filter is_total_line evs = []))"
proof (cases "pre_walk w")
  case (Inl x)
  obtain c s' where x: "x = (c, s')" by (cases x)
  have m: "main w = (c, s')" using Inl x by (simp add: main_pre_walk)
  have l: "last_state (pre_walk w) = s'" using Inl x by (simp add: last_state_simps)
  have "c \<noteq> 0" using pre_walk_Inl Inl x by blast
  then show ?thesis using m pre_walk_last[of w] unfolding l by simp
next
  case (Inr s4)
  have l: "last_state (pre_walk w) = s4" using Inr by (simp add: last_state_simps)
  have p: "actions (trace s4) = []" "filter is_total_line (trace s4) = []"
    using pre_walk_last[of w] unfolding l by simp_all
  have tf: "totalfiles s4 = of_nat (length (regular_names (enumerated (dents0 w))))"
    using pre_walk_Inr[OF Inr] by simp
  from walk_and_finish_outcome[of s4] obtain evs where
    t: "trace (last_state (walk_and_finish s4))
        = trace s4 @ total_line (totalfiles s4) # performing_line (print_only s4) # evs"
    and nt: "filter is_total_line evs = []"
    by blast
  have sm: "snd (main w) = last_state (walk_and_finish s4)"
    using Inr by (simp add: main_last_state)
  have 1: "length (filter is_total_line (trace (snd (main w)))) \<le> 1"
    unfolding sm t using p(2) nt by (simp add: is_total_line_total_line not_total_performing)
  have 2: "trace (snd (main w))
            = trace s4 @ total_line (of_nat (length (regular_names (enumerated (dents0 w)))))
                # (performing_line (print_only s4) # evs)"
    unfolding sm t tf by simp
  have 3: "filter is_total_line (performing_line (print_only s4) # evs) = []"
    using nt by (simp add: not_total_performing)
  show ?thesis using 1 2 3 p by blast
qed

subsection \<open>Completion\<close>

text \<open>
  After a completed walk the counter holds the number of names of the index, and the
  index and the list of buffers are gone. A run in report mode completes when the path is
  absolute, the set-up calls succeed, the enumeration ends with an answer of zero records
  and the memory suffices.
\<close>

lemma walk_and_finish_teardown:
  "walk_and_finish s = Inr s' \<Longrightarrow> tree s' = Null \<and> dirent_buffers_list s' = []"
  by (auto simp: walk_and_finish_def Let_def split: sum.splits)

lemma main_success_counters:
  assumes "fst (main w) = 0"
  shows "delete_count (snd (main w)) = of_nat (length (indexed_names w))
       \<and> tree (snd (main w)) = Null \<and> dirent_buffers_list (snd (main w)) = []"
proof -
  from main_success[OF assms] obtain s2 s3 s4 s5 where
    1: "check_args w (initial w) = Inr (initial w)"
    and 2: "read_env w (initial w) = Inr s2" and 3: "open_directory w s2 = Inr s3"
    and 4: "getdents_loop (dents0 w) s3 = Inr s4" and 5: "walk_and_finish s4 = Inr s5"
    and m: "main w = (0, s5)"
    by blast
  have pw: "pre_walk w = Inr s4" using 1 2 3 4 by (simp add: pre_walk_def)
  have d2: "delete_count s2 = 0" and h2: "heap s2 = []" and tr2: "tree s2 = Null"
    using read_env_Inr[OF 2] by (simp_all add: initial_def)
  have d3: "delete_count s3 = 0" and h3: "heap s3 = [[]]" and tr3: "tree s3 = Null" and b3: "buffer s3 = 0"
    using open_directory_Inr[OF 3] d2 h2 tr2 by simp_all
  have fresh: "fresh_buffer s3" by (simp add: fresh_buffer_def h3 tr3 b3)
  have d4: "delete_count s4 = 0" using getdents_loop_ok[OF 4 fresh] d3 by simp
  have "map (deref (heap s4)) (postorder_keys (tree s4)) = indexed_names w"
    using pre_walk_Inr[OF pw] by simp
  then have len: "length (postorder_keys (tree s4)) = length (indexed_names w)"
    using length_map[of "deref (heap s4)" "postorder_keys (tree s4)"] by simp
  from walk_and_finish_Inr[OF 5]
  have "delete_count s5 = delete_count s4 + of_nat (length (postorder_keys (tree s4)))" by blast
  then show ?thesis using m d4 len walk_and_finish_teardown[OF 5] by simp
qed

lemma open_directory_forward:
  assumes "access_result w = None" "lstat_result w = None" "st_isdir w"
      and "open_result w = None" "fchdir_result w = None" "2 \<le> mem s"
  shows "open_directory w s =
     Inr (s\<lparr>trace := trace s @ [Sys_access (argv w ! 1), Sys_lstat (argv w ! 1),
                     Sys_open (argv w ! 1), Sys_fchdir],
               mem := mem s - 2, heap := heap s @ [[]], buffer := length (heap s),
               dirent_buffers_list := length (heap s) # dirent_buffers_list s\<rparr>)"
  using assms
  by (simp add: open_directory_def syscall_or_die_def malloc_def linked_list_prepend_override_def
      emit_def Let_def)

lemma report_run_completes:
  assumes "2 \<le> length (argv w)" and "take 1 (argv w ! 1) = ''/''"
      and "environ w ''DENTLS_DELETE'' = None"
      and "access_result w = None" "lstat_result w = None" "st_isdir w"
      and "open_result w = None" "fchdir_result w = None"
      and "dents0 w = map GD_records bs @ tail" and "\<forall>b\<in>set bs. b \<noteq> []"
      and "tail = [] \<or> (\<exists>rest. tail = GD_records [] # rest)"
      and "2 + 2 * length bs + length (regular_names (concat bs)) \<le> mem0 w"
  shows "fst (main w) = 0"
proof -
  have ok: "args_ok w" using assms(1,2) by (simp add: args_ok_def)
  let ?s2 = "(initial w)\<lparr>show_progress := (if environ w ''DENTLS_PROGRESS'' = None then 0 else 1)\<rparr>"
  have 2: "read_env w (initial w) = Inr ?s2"
    using assms(3) by (simp add: read_env_def initial_def)
  have m2: "2 \<le> mem ?s2" using assms(12) by (simp add: initial_def)
  note 3 = open_directory_forward[OF assms(4-8) m2]
  let ?s3 = "?s2\<lparr>trace := trace ?s2 @ [Sys_access (argv w ! 1), Sys_lstat (argv w ! 1),
                     Sys_open (argv w ! 1), Sys_fchdir],
               mem := mem ?s2 - 2, heap := heap ?s2 @ [[]], buffer := length (heap ?s2),
               dirent_buffers_list := length (heap ?s2) # dirent_buffers_list ?s2\<rparr>"
  have m3: "2 * length bs + length (regular_names (concat bs)) \<le> mem ?s3"
    using assms(12) by (simp add: initial_def)
  from getdents_loop_forward[OF assms(10) m3] obtain s1 where
    f: "\<And>tl. getdents_loop (map GD_records bs @ tl) ?s3 = getdents_loop tl s1"
    by blast
  have "getdents_loop tail s1 = Inr (emit (Sys_getdents (buffer s1)) s1)"
    using assms(11) by auto
  then have 4: "getdents_loop (dents0 w) ?s3 = Inr (emit (Sys_getdents (buffer s1)) s1)"
    unfolding assms(9) f .
  have pw: "pre_walk w = Inr (emit (Sys_getdents (buffer s1)) s1)"
    unfolding pre_walk_def check_args_ok[OF ok] using 2 3 4 by simp
  let ?s4 = "emit (Sys_getdents (buffer s1)) s1"
  have "print_only ?s4 = mode_word w" using pre_walk_Inr[OF pw] by simp
  then have po: "print_only ?s4 \<noteq> 0" using assms(3) by (simp add: mode_word_def)
  obtain c s' where m: "main w = (c, s')" by (cases "main w")
  show ?thesis
  proof (cases "walk_and_finish ?s4")
    case (Inr s5)
    then show ?thesis using pw by (simp add: main_pre_walk)
  next
    case (Inl x)
    let ?ks = "postorder_keys (tree ?s4)"
    let ?sw = "emit (Stderr (''Performing '' @ (if print_only (emit (Stderr (''Total files: '' @ dec_int (sint (totalfiles ?s4)) @ newline)) ?s4) \<noteq> 0 then ''print'' else ''delete'')
                 @ ''...'' @ newline)) (emit (Stderr (''Total files: '' @ dec_int (sint (totalfiles ?s4)) @ newline)) ?s4)"
    have "print_only ?sw \<noteq> 0" using po by (simp add: emit_def)
    then obtain s3 where "visit_all ?ks ?sw = Inr s3"
      using visit_all_ok[of ?sw ?ks] by blast
    then have "\<exists>s5. walk_and_finish ?s4 = Inr s5"
      unfolding walk_and_finish_def Let_def twalk_def trecurse_visit_all by (simp add: emit_def)
    then show ?thesis using Inl by simp
  qed
qed

subsection \<open>No name is acted on twice\<close>

text \<open>
  However a run ends, its actions are those of a first part of the names of the index in
  postorder, and these names are pairwise distinct.
\<close>

lemma walk_and_finish_actions:
  "\<exists>m. actions (trace (last_state (walk_and_finish s)))
      = actions (trace s)
        @ map (name_event (print_only s)) (take m (map (deref (heap s)) (postorder_keys (tree s))))"
proof -
  let ?ks = "postorder_keys (tree s)"
  let ?s2 = "s\<lparr>trace := trace s @ [total_line (totalfiles s), performing_line (print_only s)]\<rparr>"
  have eq: "emit (Stderr (''Performing '' @ (if print_only (emit (Stderr (''Total files: '' @ dec_int (sint (totalfiles s)) @ newline)) s) \<noteq> 0 then ''print'' else ''delete'')
                 @ ''...'' @ newline)) (emit (Stderr (''Total files: '' @ dec_int (sint (totalfiles s)) @ newline)) s) = ?s2"
    by (simp add: emit_def total_line_def performing_line_def)
  from visit_all_actions[of ?ks ?s2] obtain m where
    a: "actions (trace (last_state (visit_all ?ks ?s2)))
        = actions (trace ?s2) @ map (action_event ?s2) (take m ?ks)"
    by blast
  have a2: "actions (trace ?s2) = actions (trace s)"
    by (simp add: actions_def is_action_def total_line_def performing_line_def)
  have ae: "map (action_event ?s2) (take m ?ks)
      = map (name_event (print_only s)) (take m (map (deref (heap s)) ?ks))"
    by (simp add: action_event_def name_event_def take_map)
  have "actions (trace (last_state (walk_and_finish s)))
      = actions (trace (last_state (visit_all ?ks ?s2)))"
  proof (cases "visit_all ?ks ?s2")
    case (Inl x)
    then have "walk_and_finish s = Inl x"
      unfolding walk_and_finish_def Let_def eq twalk_def trecurse_visit_all by simp
    then show ?thesis using Inl by simp
  next
    case (Inr s3)
    then show ?thesis
      unfolding walk_and_finish_def Let_def eq twalk_def trecurse_visit_all
      by (simp add: last_state_simps emit_def actions_def is_action_def)
  qed
  then show ?thesis using a a2 ae by (intro exI[of _ m]) simp
qed

lemma main_actions:
  "\<exists>m. actions (trace (snd (main w))) = map (name_event (mode_word w)) (take m (indexed_names w))"
proof (cases "pre_walk w")
  case (Inl x)
  then have "actions (trace (snd (main w))) = []"
    using pre_walk_last[of w] by (simp add: main_last_state)
  then show ?thesis by (intro exI[of _ 0]) simp
next
  case (Inr s4)
  have l: "last_state (pre_walk w) = s4" using Inr by (simp add: last_state_simps)
  have p: "actions (trace s4) = []" using pre_walk_last[of w] unfolding l by simp
  note e = pre_walk_Inr[OF Inr]
  from walk_and_finish_actions[of s4] obtain m where
    "actions (trace (last_state (walk_and_finish s4)))
      = actions (trace s4)
        @ map (name_event (print_only s4)) (take m (map (deref (heap s4)) (postorder_keys (tree s4))))"
    by blast
  then have "actions (trace (snd (main w))) = map (name_event (mode_word w)) (take m (indexed_names w))"
    using Inr p e by (simp add: main_last_state)
  then show ?thesis by blast
qed

lemma main_never_twice:
  "distinct (stdout_of (trace (snd (main w)))) \<and> distinct (unlinked (trace (snd (main w))))"
proof -
  from main_actions[of w] obtain m where
    a: "actions (trace (snd (main w))) = map (name_event (mode_word w)) (take m (indexed_names w))"
    by blast
  have d: "distinct (take m (indexed_names w))"
    using distinct_indexed_names[of w] by (rule distinct_take)
  have 1: "stdout_of (trace (snd (main w)))
      = (if mode_word w \<noteq> 0 then map (\<lambda>n. n @ newline) (take m (indexed_names w)) else [])"
    using stdout_of_actions[of "trace (snd (main w))"] unfolding a stdout_of_name_events by simp
  have 2: "unlinked (trace (snd (main w))) = (if mode_word w \<noteq> 0 then [] else take m (indexed_names w))"
    using unlinked_actions[of "trace (snd (main w))"] unfolding a unlinked_name_events by simp
  show ?thesis unfolding 1 2 using d by (simp add: distinct_map inj_on_def)
qed

subsection \<open>The trace of a completed walk\<close>

text \<open>
  A visit that succeeds appends the action on the name and, when progress is reported, the
  marker of the count it has just incremented; so a completed walk appends exactly the
  events of \<open>visit_events\<close>, and the run brackets them between its two header lines and
  the completion notice. The only writes to the secondary stream among them are the dots
  and the counts of the progress markers.
\<close>

lemma report_progress_events:
  "report_progress s = s\<lparr>trace := trace s @ progress_events (delete_count s)\<rparr>"
  by (simp add: report_progress_def progress_events_def emit_def)

lemma walk_tree_exact:
  assumes "can_act s k"
  shows "walk_tree k leaf 0 s =
     Inr (s\<lparr>trace := trace s @ name_event (print_only s) (deref (heap s) k)
                  # (if show_progress s \<noteq> 0 then progress_events (delete_count s + 1) else []),
             files := files_after s [deref (heap s) k],
             delete_count := delete_count s + 1\<rparr>)"
proof -
  let ?n = "deref (heap s) k"
  let ?s1 = "s\<lparr>trace := trace s @ [name_event (print_only s) ?n], files := files_after s [?n],
                delete_count := delete_count s + 1\<rparr>"
  have pu: "print_or_unlink k s = (0, ?s1)"
    using assms
    by (auto simp: print_or_unlink_def unlink_def can_act_def name_event_def files_after_def
        emit_def Let_def)
  show ?thesis
  proof (cases "show_progress s = 0")
    case True
    then show ?thesis using pu by (simp add: walk_tree_def)
  next
    case False
    then have "walk_tree k leaf 0 s = Inr (report_progress ?s1)"
      using pu by (simp add: walk_tree_def)
    then show ?thesis using False by (simp add: report_progress_events)
  qed
qed

lemma visit_all_exact:
  assumes "visit_all ks s = Inr s'"
  shows "trace s' = trace s @ visit_events (print_only s) (show_progress s) (delete_count s)
                               (map (deref (heap s)) ks)"
  using assms
proof (induction ks arbitrary: s)
  case Nil
  then show ?case by simp
next
  case (Cons k ks)
  have ca: "can_act s k"
  proof (rule ccontr)
    assume "\<not> can_act s k"
    from walk_tree_fail[OF this] Cons.prems show False by simp
  qed
  let ?s1 = "s\<lparr>trace := trace s @ name_event (print_only s) (deref (heap s) k)
                  # (if show_progress s \<noteq> 0 then progress_events (delete_count s + 1) else []),
             files := files_after s [deref (heap s) k],
             delete_count := delete_count s + 1\<rparr>"
  have v: "visit_all ks ?s1 = Inr s'"
    using Cons.prems walk_tree_exact[OF ca] by simp
  from Cons.IH[OF v] show ?case by simp
qed

lemma visit_events_quiet: "visit_events p 0 c ns = map (name_event p) ns"
  by (induction ns arbitrary: c) simp_all

lemma name_event_not_stderr: "name_event p n \<noteq> Stderr x"
  by (simp add: name_event_def)

lemma progress_events_stderr:
  "Stderr x \<in> set (progress_events c) \<Longrightarrow>
     x = ''.'' \<or> (c mod (progress_interval_minor * progress_interval_major) = 0
        \<and> x = (if c \<noteq> 0 then newline else []) @ dec (unat c))"
  unfolding progress_events_def by (simp split: if_splits)

lemma visit_events_stderr_at:
  "Stderr x \<in> set (visit_events p sp c ns) \<Longrightarrow>
     sp \<noteq> 0 \<and> (\<exists>j. 0 < j \<and> j \<le> length ns \<and> Stderr x \<in> set (progress_events (c + of_nat j)))"
proof (induction ns arbitrary: c)
  case Nil
  then show ?case by simp
next
  case (Cons n ns)
  have mem: "Stderr x \<in> set ((if sp \<noteq> 0 then progress_events (c + 1) else []))
      \<or> Stderr x \<in> set (visit_events p sp (c + 1) ns)"
    using Cons.prems name_event_not_stderr[of p n x] by auto
  show ?case
  proof (cases "Stderr x \<in> set (visit_events p sp (c + 1) ns)")
    case True
    from Cons.IH[OF True] obtain j where sp: "sp \<noteq> 0" and j: "0 < j" "j \<le> length ns"
      "Stderr x \<in> set (progress_events (c + 1 + of_nat j))"
      by blast
    have e: "c + 1 + of_nat j = c + of_nat (Suc j)" by (simp only: of_nat_Suc add.assoc)
    have "0 < Suc j \<and> Suc j \<le> length (n # ns) \<and> Stderr x \<in> set (progress_events (c + of_nat (Suc j)))"
      using j unfolding e by simp
    then show ?thesis using sp by blast
  next
    case False
    then have m: "Stderr x \<in> set ((if sp \<noteq> 0 then progress_events (c + 1) else []))"
      using mem by blast
    then have sp: "sp \<noteq> 0" by (cases "sp = 0") simp_all
    then have "Stderr x \<in> set (progress_events (c + 1))" using m by simp
    then have "0 < Suc 0 \<and> Suc 0 \<le> length (n # ns) \<and> Stderr x \<in> set (progress_events (c + of_nat (Suc 0)))"
      by simp
    then show ?thesis using sp by blast
  qed
qed


lemma visit_events_stderr:
  assumes "Stderr x \<in> set (visit_events p sp c ns)"
  shows "sp \<noteq> 0 \<and> (x = ''.'' \<or>
       (\<exists>j. 0 < j \<and> j \<le> length ns
            \<and> (c + of_nat j) mod (progress_interval_minor * progress_interval_major) = 0
            \<and> x = (if c + of_nat j \<noteq> 0 then newline else []) @ dec (unat (c + of_nat j))))"
proof -
  from visit_events_stderr_at[OF assms] obtain j where sp: "sp \<noteq> 0" and j: "0 < j" "j \<le> length ns"
    and m: "Stderr x \<in> set (progress_events (c + of_nat j))"
    by (elim conjE exE) (rule that)
  from progress_events_stderr[OF m] have "x = ''.'' \<or>
       (\<exists>j. 0 < j \<and> j \<le> length ns
            \<and> (c + of_nat j) mod (progress_interval_minor * progress_interval_major) = 0
            \<and> x = (if c + of_nat j \<noteq> 0 then newline else []) @ dec (unat (c + of_nat j)))"
  proof (elim disjE conjE)
    assume "x = ''.''"
    then show ?thesis by (rule disjI1)
  next
    assume a: "(c + of_nat j) mod (progress_interval_minor * progress_interval_major) = 0"
      and b: "x = (if c + of_nat j \<noteq> 0 then newline else []) @ dec (unat (c + of_nat j))"
    show ?thesis
      by (rule disjI2, rule exI[of _ j], intro conjI) (rule j a b)+
  qed
  with sp show ?thesis by (rule conjI)
qed


lemma actions_progress_events: "actions (progress_events c) = []"
  by (simp add: actions_def progress_events_def is_action_def)

lemma actions_visit_events: "actions (visit_events p sp c ns) = map (name_event p) ns"
proof (induction ns arbitrary: c)
  case Nil
  then show ?case by (simp add: actions_def)
next
  case (Cons n ns)
  have a: "is_action (name_event p n)" by (simp add: is_action_def name_event_def)
  have b: "filter is_action (if sp \<noteq> 0 then progress_events (c + 1) else []) = []"
    using actions_progress_events[of "c + 1"] by (simp add: actions_def)
  show ?case using Cons.IH[of "c + 1"] a b by (simp add: actions_def)
qed

lemma walk_and_finish_exact:
  assumes "walk_and_finish s = Inr s'"
  shows "trace s' = trace s @ [total_line (totalfiles s), performing_line (print_only s)]
           @ visit_events (print_only s) (show_progress s) (delete_count s)
               (map (deref (heap s)) (postorder_keys (tree s)))
           @ [Stderr (''Done'' @ newline), Sys_close]"
proof -
  let ?ks = "postorder_keys (tree s)"
  let ?s2 = "s\<lparr>trace := trace s @ [total_line (totalfiles s), performing_line (print_only s)]\<rparr>"
  have eq: "emit (Stderr (''Performing '' @ (if print_only (emit (Stderr (''Total files: '' @ dec_int (sint (totalfiles s)) @ newline)) s) \<noteq> 0 then ''print'' else ''delete'')
                 @ ''...'' @ newline)) (emit (Stderr (''Total files: '' @ dec_int (sint (totalfiles s)) @ newline)) s) = ?s2"
    by (simp add: emit_def total_line_def performing_line_def)
  obtain s3 where v: "visit_all ?ks ?s2 = Inr s3"
    and fin: "s' = (emit Sys_close (emit (Stderr (''Done'' @ newline)) s3))
           \<lparr>heap := free_linked_list (dirent_buffers_list (emit Sys_close (emit (Stderr (''Done'' @ newline)) s3)))
                       (heap (emit Sys_close (emit (Stderr (''Done'' @ newline)) s3))),
            dirent_buffers_list := [], tree := Null\<rparr>"
    using assms unfolding walk_and_finish_def Let_def eq twalk_def trecurse_visit_all
    by (cases "visit_all ?ks ?s2") (auto split: sum.splits)
  have t: "trace s3 = trace ?s2 @ visit_events (print_only s) (show_progress s) (delete_count s)
                               (map (deref (heap s)) ?ks)"
    using visit_all_exact[OF v] by simp
  show ?thesis using fin t by (simp add: emit_def)
qed

lemma dec_50000: "dec 50000 = ''50000''"
  by (simp add: dec.simps[of 50000] dec.simps[of 5000] dec.simps[of 500] dec.simps[of 50]
      dec.simps[of 5] digit_def)

lemma progress_events_50000: "progress_events 50000 = [Sleep 1, Stderr (newline @ ''50000'')]"
  by (simp add: progress_events_def progress_interval_minor_def progress_interval_major_def
      dec_50000)

lemma progress_events_50001: "progress_events 50001 = []"
  by (simp add: progress_events_def progress_interval_minor_def progress_interval_major_def)

lemma progress_events_50002: "progress_events 50002 = []"
  by (simp add: progress_events_def progress_interval_minor_def progress_interval_major_def)

lemma walk_and_finish_report:
  assumes "print_only s \<noteq> 0"
  shows "walk_and_finish s = Inr (last_state (walk_and_finish s))"
proof -
  let ?ks = "postorder_keys (tree s)"
  let ?s2 = "s\<lparr>trace := trace s @ [total_line (totalfiles s), performing_line (print_only s)]\<rparr>"
  have eq: "emit (Stderr (''Performing '' @ (if print_only (emit (Stderr (''Total files: '' @ dec_int (sint (totalfiles s)) @ newline)) s) \<noteq> 0 then ''print'' else ''delete'')
                 @ ''...'' @ newline)) (emit (Stderr (''Total files: '' @ dec_int (sint (totalfiles s)) @ newline)) s) = ?s2"
    by (simp add: emit_def total_line_def performing_line_def)
  have "print_only ?s2 \<noteq> 0 \<or>
     (distinct (map (deref (heap ?s2)) ?ks) \<and> set (map (deref (heap ?s2)) ?ks) \<subseteq> files ?s2 - undeletable ?s2)"
    using assms by simp
  from visit_all_ok[OF this] obtain s3 where v: "visit_all ?ks ?s2 = Inr s3"
    by (elim exE conjE) (rule that)
  have "walk_and_finish s = (case visit_all ?ks ?s2 of Inl x \<Rightarrow> Inl x | Inr s3 \<Rightarrow>
      Inr ((emit Sys_close (emit (Stderr (''Done'' @ newline)) s3))
           \<lparr>heap := free_linked_list (dirent_buffers_list (emit Sys_close (emit (Stderr (''Done'' @ newline)) s3)))
                       (heap (emit Sys_close (emit (Stderr (''Done'' @ newline)) s3))),
            dirent_buffers_list := [], tree := Null\<rparr>))"
    unfolding walk_and_finish_def Let_def eq twalk_def trecurse_visit_all by simp
  then have "\<exists>s'. walk_and_finish s = Inr s'"
    by (simp add: v)
  then obtain s' where "walk_and_finish s = Inr s'" by (rule exE)
  then show ?thesis by (simp add: last_state_simps)
qed

section \<open>The claims\<close>

text \<open>
  C1. A run in report mode that ends with status 0: the set of lines on the primary
  stream is exactly the set of the names, each followed by a newline, of the enumerated
  records whose type tag is \<open>DT_REG\<close> and whose name is neither \<open>.\<close> nor \<open>..\<close>. The right
  side is a set of the records, so the order in which the enumeration returns them, and
  the way they are cut into batches, does not matter.
\<close>

theorem report_mode_complete:
  assumes "fst (main w) = 0" and "environ w ''DENTLS_DELETE'' = None"
  shows "set (stdout_of (trace (snd (main w)))) =
     (\<lambda>n. n @ newline) ` {d_name d |d. d \<in> set (enumerated (dents0 w)) \<and> d_type d = DT_REG
                                 \<and> d_name d \<noteq> ''.'' \<and> d_name d \<noteq> ''..''}"
  using main_outputs(1)[OF assms(1)] assms(2)
  by (simp add: mode_word_def set_indexed_names set_regular_names)

theorem report_mode_complete_witness:
  "fst (main example_world) = 0 \<and> environ example_world ''DENTLS_DELETE'' = None
   \<and> set (stdout_of (trace (snd (main example_world))))
       = {''a'' @ newline, ''b'' @ newline, ''c'' @ newline}"
proof -
  have 1: "fst (main example_world) = 0" by code_simp
  have 2: "environ example_world ''DENTLS_DELETE'' = None" by (simp add: example_world_def)
  have 3: "regular_names (enumerated (dents0 example_world)) = [''b'', ''a'', ''c'']"
    by code_simp
  from report_mode_complete[OF 1 2] show ?thesis
    unfolding set_regular_names[symmetric] 3 using 1 2 by auto
qed

text \<open>
  C2. Whatever the batches of the enumeration are and however the run ends, no line is
  printed twice and no name is unlinked twice. In a run that ends with status 0 the name
  of every enumerated regular-file record is printed exactly once in report mode (and
  never unlinked), and unlinked exactly once in destructive mode (and never printed).
  The names of the records need not even be pairwise distinct for this.
\<close>

theorem each_name_once:
  "distinct (stdout_of (trace (snd (main w)))) \<and> distinct (unlinked (trace (snd (main w))))
   \<and> (fst (main w) = 0 \<and> d \<in> set (enumerated (dents0 w)) \<and> d_type d = DT_REG
        \<and> d_name d \<noteq> ''.'' \<and> d_name d \<noteq> ''..'' \<longrightarrow>
      count_list (stdout_of (trace (snd (main w)))) (d_name d @ newline)
           = (if environ w ''DENTLS_DELETE'' = None then 1 else 0)
       \<and> count_list (unlinked (trace (snd (main w)))) (d_name d)
           = (if environ w ''DENTLS_DELETE'' = None then 0 else 1))"
proof -
  have "count_list (stdout_of (trace (snd (main w)))) (d_name d @ newline)
           = (if environ w ''DENTLS_DELETE'' = None then 1 else 0)
       \<and> count_list (unlinked (trace (snd (main w)))) (d_name d)
           = (if environ w ''DENTLS_DELETE'' = None then 0 else 1)"
    if ok: "fst (main w) = 0" and d: "d \<in> set (enumerated (dents0 w))" "d_type d = DT_REG"
      "d_name d \<noteq> ''.''" "d_name d \<noteq> ''..''"
  proof -
    have "d_name d \<in> set (indexed_names w)"
      using d by (auto simp: set_indexed_names set_regular_names)
    then have c: "count_list (indexed_names w) (d_name d) = 1"
      by (simp add: count_list_distinct distinct_indexed_names)
    show ?thesis
      using main_outputs[OF ok] c by (simp add: mode_word_def count_list_map_line)
  qed
  then show ?thesis using main_never_twice[of w] by blast
qed

theorem each_name_once_witness:
  "fst (main example_world_delete) = 0
   \<and> \<lparr>d_name = ''c'', d_type = 8\<rparr> \<in> set (enumerated (dents0 example_world_delete))
   \<and> distinct (unlinked (trace (snd (main example_world_delete))))
   \<and> count_list (stdout_of (trace (snd (main example_world_delete)))) (''c'' @ newline) = 0
   \<and> count_list (unlinked (trace (snd (main example_world_delete)))) ''c'' = 1"
proof -
  have 1: "fst (main example_world_delete) = 0" by code_simp
  have 2: "\<lparr>d_name = ''c'', d_type = 8\<rparr> \<in> set (enumerated (dents0 example_world_delete))"
    by (simp add: example_world_delete_def example_world_def)
  have 3: "environ example_world_delete ''DENTLS_DELETE'' \<noteq> None"
    by (simp add: example_world_delete_def)
  from each_name_once[of example_world_delete "\<lparr>d_name = ''c'', d_type = 8\<rparr>"] 3 show ?thesis
    using 1 2 by (simp add: DT_REG_def)
qed

text \<open>
  C3. The action of the walk fires at the \<open>leaf\<close> and \<open>endorder\<close> visits only: a
  \<open>preorder\<close> or \<open>postorder\<close> (in-order) visit leaves the process as it is. So, for
  every tree, walking it with \<open>walk_tree\<close> is acting on its keys one after the other in
  postorder (left subtree, right subtree, then the node), up to the first action that
  exits; the names printed or unlinked are a prefix of the postorder sequence, all of it
  when the walk returns.
\<close>

theorem walk_is_postorder_replay:
  "walk_tree k preorder lvl s = Inr s \<and> walk_tree k postorder lvl s = Inr s
   \<and> twalk t walk_tree s = visit_all (postorder_keys t) s
   \<and> (\<exists>m\<le>length (postorder_keys t).
        actions (trace (last_state (twalk t walk_tree s)))
          = actions (trace s) @ map (action_event s) (take m (postorder_keys t))
        \<and> (isl (twalk t walk_tree s) \<or> m = length (postorder_keys t)))"
  using visit_all_actions[of "postorder_keys t" s]
  by (simp add: walk_tree_skip twalk_def trecurse_visit_all)

theorem walk_is_postorder_replay_witness:
  "walk_tree (0, 2) preorder 0 example_state = Inr example_state
   \<and> walk_tree (0, 2) postorder 0 example_state = Inr example_state
   \<and> twalk (tree example_state) walk_tree example_state
       = visit_all [(0, 4), (1, 1), (0, 2)] example_state
   \<and> actions (trace (last_state (twalk (tree example_state) walk_tree example_state)))
       = [Sys_unlink ''a'', Sys_unlink ''c'']"
proof -
  have 1: "postorder_keys (tree example_state) = [(0, 4), (1, 1), (0, 2)]"
    by (simp add: example_state_def)
  have 2: "actions (trace (last_state (twalk (tree example_state) walk_tree example_state)))
       = [Sys_unlink ''a'', Sys_unlink ''c'']"
    by code_simp
  from walk_is_postorder_replay[of "(0, 2)" 0 example_state "tree example_state"]
  show ?thesis unfolding 1 using 2 by simp
qed

text \<open>
  C4. Destructive mode, a tree whose keys name, in postorder, the entries \<open>ok\<close>, then
  \<open>n\<close>, then \<open>rest\<close>: when the \<open>K\<close> entries of \<open>ok\<close> are removable and the removal of
  \<open>n\<close> fails, the walk exits with status 1, its last output is the failing name and the
  system error of \<open>unlink\<close>, exactly the \<open>K\<close> entries of \<open>ok\<close> are gone from the directory,
  and \<open>unlink\<close> was called once for each of them and once for \<open>n\<close>, for nothing else.
\<close>

theorem removal_failure_is_fatal:
  assumes "print_only s = 0"
      and "map (deref (heap s)) (postorder_keys t) = ok @ n # rest"
      and "distinct ok" and "set ok \<subseteq> files s - undeletable s"
      and "n \<notin> files s - set ok \<or> n \<in> undeletable s"
  shows "\<exists>s' evs. twalk t walk_tree s = Inl (1, s')
      \<and> files s' = files s - set ok \<and> card (files s - files s') = length ok
      \<and> trace s' = trace s @ evs @ [Sys_unlink n, Stderr (''Failed to delete '' @ n),
           Perror ''unlink problem'' (if n \<in> files s - set ok then EACCES else ENOENT)]
      \<and> actions evs = map Sys_unlink ok"
proof -
  from visit_all_fail[OF assms] obtain s' evs where
    v: "visit_all (postorder_keys t) s = Inl (1, s')" and f: "files s' = files s - set ok"
    and tr: "trace s' = trace s @ evs @ [Sys_unlink n, Stderr (''Failed to delete '' @ n),
           Perror ''unlink problem'' (if n \<in> files s - set ok then EACCES else ENOENT)]"
    and a: "actions evs = map Sys_unlink ok"
    by blast
  have "files s - files s' = set ok" using f assms(4) by auto
  then have c: "card (files s - files s') = length ok"
    using assms(3) by (simp add: distinct_card)
  have w: "twalk t walk_tree s = Inl (1, s')" using v by (simp add: twalk_def trecurse_visit_all)
  show ?thesis
    by (intro exI[of _ s'] exI[of _ evs] conjI) (rule w f c tr a)+
qed

theorem removal_failure_is_fatal_witness:
  "print_only example_state = 0
   \<and> map (deref (heap example_state)) (postorder_keys (tree example_state)) = [''a''] @ ''c'' # [''b'']
   \<and> (\<exists>s' evs. twalk (tree example_state) walk_tree example_state = Inl (1, s')
      \<and> files s' = {''b'', ''c'', ''link'', ''sub''} \<and> card (files example_state - files s') = 1
      \<and> trace s' = evs @ [Sys_unlink ''c'', Stderr ''Failed to delete c'', Perror ''unlink problem'' EACCES]
      \<and> actions evs = [Sys_unlink ''a''])"
proof -
  have 1: "print_only example_state = 0" by (simp add: example_state_def)
  have 2: "map (deref (heap example_state)) (postorder_keys (tree example_state)) = [''a''] @ ''c'' # [''b'']"
    by (simp add: example_state_def deref_def)
  have 3: "distinct [''a'']" by simp
  have 4: "set [''a''] \<subseteq> files example_state - undeletable example_state"
    by (simp add: example_state_def)
  have 5: "''c'' \<notin> files example_state - set [''a''] \<or> ''c'' \<in> undeletable example_state"
    by (simp add: example_state_def)
  have 6: "files example_state - set [''a''] = {''b'', ''c'', ''link'', ''sub''}"
    by (auto simp: example_state_def)
  have 7: "trace example_state = []" by (simp add: example_state_def)
  have 8: "''c'' \<in> files example_state - set [''a'']" by (simp add: example_state_def)
  from removal_failure_is_fatal[OF 1 2 3 4 5] show ?thesis
    unfolding 6 7 using 1 2 8 by simp
qed

text \<open>
  C5. The program ends in destructive mode (\<open>print_only\<close> cleared) exactly when it is
  given an absolute path and \<^verbatim>\<open>DENTLS_DELETE\<close> is the literal \<open>delete\<close>. Any other value of
  the variable, the empty one included, ends the run with a non-zero status after output
  on the secondary stream only: no system call, no enumeration, the directory unchanged;
  after a valid path argument the output is the two explanatory lines and the status is 1.
  When the variable is unset the run is report-only: \<open>print_only\<close> stays 1, nothing is
  unlinked and the directory is unchanged, however the run ends.
\<close>

theorem mode_selector:
  "(print_only (snd (main w)) = 0 \<longleftrightarrow>
      2 \<le> length (argv w) \<and> take 1 (argv w ! 1) = ''/''
      \<and> environ w ''DENTLS_DELETE'' = Some ''delete'')
   \<and> (\<forall>v. environ w ''DENTLS_DELETE'' = Some v \<and> v \<noteq> ''delete'' \<longrightarrow>
         fst (main w) \<noteq> 0 \<and> files (snd (main w)) = files0 w
         \<and> trace (snd (main w)) \<noteq> [] \<and> (\<forall>e\<in>set (trace (snd (main w))). \<exists>x. e = Stderr x)
         \<and> (2 \<le> length (argv w) \<and> take 1 (argv w ! 1) = ''/'' \<longrightarrow>
              fst (main w) = 1
              \<and> trace (snd (main w)) =
                  [Stderr (''If you'' @ [CHR 0x27] @ ''d like to delete files, please set DENTLS_DELETE to ''
                        @ [CHR 0x27] @ ''delete'' @ [CHR 0x27] @ '', *EXACTLY*.'' @ newline),
                   Stderr (''If you did not intend to run deletes, please unset the variable entirely.'' @ newline)]))
   \<and> (environ w ''DENTLS_DELETE'' = None \<longrightarrow>
         print_only (snd (main w)) = 1 \<and> files (snd (main w)) = files0 w
         \<and> unlinked (trace (snd (main w))) = [])"
proof -
  have 1: "print_only (snd (main w)) = 0 \<longleftrightarrow>
      2 \<le> length (argv w) \<and> take 1 (argv w ! 1) = ''/''
      \<and> environ w ''DENTLS_DELETE'' = Some ''delete''"
    by (simp add: main_print_only args_ok_def)
  have 2: "fst (main w) \<noteq> 0 \<and> files (snd (main w)) = files0 w
         \<and> trace (snd (main w)) \<noteq> [] \<and> (\<forall>e\<in>set (trace (snd (main w))). \<exists>x. e = Stderr x)"
    if a: "environ w ''DENTLS_DELETE'' = Some v \<and> v \<noteq> ''delete''" for v
  proof (cases "args_ok w")
    case True
    from main_bad_mode[OF True] a show ?thesis by (auto simp: initial_def)
  next
    case False
    from main_bad_args[OF False] show ?thesis by (auto simp: initial_def)
  qed
  have 3: "fst (main w) = 1
              \<and> trace (snd (main w)) =
                  [Stderr (''If you'' @ [CHR 0x27] @ ''d like to delete files, please set DENTLS_DELETE to ''
                        @ [CHR 0x27] @ ''delete'' @ [CHR 0x27] @ '', *EXACTLY*.'' @ newline),
                   Stderr (''If you did not intend to run deletes, please unset the variable entirely.'' @ newline)]"
    if a: "environ w ''DENTLS_DELETE'' = Some v \<and> v \<noteq> ''delete''"
      and ok: "2 \<le> length (argv w) \<and> take 1 (argv w ! 1) = ''/''" for v
  proof -
    have "args_ok w" using ok by (simp add: args_ok_def)
    from main_bad_mode[OF this] a show ?thesis by simp
  qed
  have 4: "print_only (snd (main w)) = 1 \<and> files (snd (main w)) = files0 w
         \<and> unlinked (trace (snd (main w))) = []"
    if n: "environ w ''DENTLS_DELETE'' = None"
    using main_report_only[OF n] n by (simp add: main_print_only)
  show ?thesis
    using 1 2 3 4 by blast
qed

theorem mode_selector_witness:
  "environ example_world_typo ''DENTLS_DELETE'' = Some ''Delete''
   \<and> fst (main example_world_typo) = 1
   \<and> files (snd (main example_world_typo)) = files0 example_world_typo
   \<and> print_only (snd (main example_world_typo)) \<noteq> 0
   \<and> environ example_world_delete ''DENTLS_DELETE'' = Some ''delete''
   \<and> print_only (snd (main example_world_delete)) = 0
   \<and> environ example_world ''DENTLS_DELETE'' = None
   \<and> print_only (snd (main example_world)) = 1
   \<and> unlinked (trace (snd (main example_world))) = []"
proof -
  have 1: "environ example_world_typo ''DENTLS_DELETE'' = Some ''Delete''"
    "2 \<le> length (argv example_world_typo)" "take 1 (argv example_world_typo ! 1) = ''/''"
    by (simp_all add: example_world_typo_def example_world_def)
  have 2: "environ example_world_delete ''DENTLS_DELETE'' = Some ''delete''"
    "2 \<le> length (argv example_world_delete)" "take 1 (argv example_world_delete ! 1) = ''/''"
    by (simp_all add: example_world_delete_def example_world_def)
  have 3: "environ example_world ''DENTLS_DELETE'' = None"
    by (simp add: example_world_def)
  show ?thesis
    using mode_selector[of example_world_typo] mode_selector[of example_world_delete]
      mode_selector[of example_world] 1 2 3
    by simp
qed

text \<open>
  C6. When the directory argument is missing, begins with a dash or does not begin with
  \<open>/\<close> (an empty argument included), the program writes its guidance to the secondary
  stream and nothing else happens: no system call is made, the directory is as it was,
  and the exit status is 1 (no argument) or -1 (the usage text).
\<close>

theorem usage_rejection:
  assumes "length (argv w) < 2 \<or> take 1 (argv w ! 1) = ''-'' \<or> take 1 (argv w ! 1) \<noteq> ''/''"
  shows "fst (main w) = (if length (argv w) < 2 then 1 else - 1)
       \<and> fst (main w) \<noteq> 0
       \<and> files (snd (main w)) = files0 w
       \<and> trace (snd (main w)) =
           (if length (argv w) < 2 then
              [Stderr (''You must supply a valid directory path.'' @ newline)]
            else
              [Stderr (''Usage: '' @ argv w ! 0 @ '' <directory>'' @ newline),
               Stderr (''  For safety, <directory> must be fully-qualified (i.e., start with /).'' @ newline),
               Stderr (''  Env: Set DENTLS_DELETE=delete to delete instead of print.'' @ newline),
               Stderr (''  Env: Set DENTLS_PROGRESS to show progress on stderr.'' @ newline)])"
proof -
  have "\<not> args_ok w" using assms by (auto simp: args_ok_def)
  from main_bad_args[OF this] show ?thesis by (simp add: initial_def)
qed

theorem usage_rejection_witness:
  "take 1 (argv example_world_relative ! 1) \<noteq> ''/''
   \<and> fst (main example_world_relative) = - 1
   \<and> files (snd (main example_world_relative)) = files0 example_world_relative
   \<and> take 1 (argv example_world_flag ! 1) = ''-''
   \<and> fst (main example_world_flag) = - 1
   \<and> files (snd (main example_world_flag)) = files0 example_world_flag
   \<and> length (argv example_world_no_argument) < 2
   \<and> fst (main example_world_no_argument) = 1
   \<and> trace (snd (main example_world_no_argument))
       = [Stderr (''You must supply a valid directory path.'' @ newline)]"
proof -
  have 1: "take 1 (argv example_world_relative ! 1) \<noteq> ''/''"
    by (simp add: example_world_relative_def)
  have 2: "take 1 (argv example_world_flag ! 1) = ''-''"
    by (simp add: example_world_flag_def)
  have 3: "length (argv example_world_no_argument) < 2"
    by (simp add: example_world_no_argument_def)
  have 4: "\<not> length (argv example_world_relative) < 2" "\<not> length (argv example_world_flag) < 2"
    by (simp_all add: example_world_relative_def example_world_flag_def)
  show ?thesis
    using usage_rejection[of example_world_relative] usage_rejection[of example_world_flag]
      usage_rejection[of example_world_no_argument] 1 2 3 4
    by simp
qed

text \<open>
  C7. The enumeration loop returns normally only when a \<^verbatim>\<open>getdents\<close> call has answered
  with no record, and at the first such answer: it has then made one call more than there
  were non-empty batches before it. With memory for the batches (two blocks and at most
  one tree node per regular record each), a stream of non-empty batches followed by a
  zero answer (or by the end of the directory) does end the loop normally, and followed by
  an error answer it ends the program with status 1, the last output being \<^verbatim>\<open>perror\<close> of
  \<open>getdents\<close> with the error number of the call. In every run the line \<open>Total files:\<close> is
  written at most once; when the run completes or acts on any entry it is written,
  with the number of regular-file records enumerated, before the first action.
\<close>

theorem enumeration_ends_at_zero:
  "(getdents_loop ds s = Inr s' \<longrightarrow>
      ends_with_zero ds
      \<and> (\<exists>addrs. trace s' = trace s @ map Sys_getdents addrs
            \<and> length addrs = Suc (leading_batches ds)))
   \<and> ((\<forall>b\<in>set bs. b \<noteq> []) \<and> 2 * length bs + length (regular_names (concat bs)) \<le> mem s \<longrightarrow>
        (\<exists>s1 addrs. getdents_loop (map GD_records bs @ GD_records [] # rest) s = Inr s1
            \<and> trace s1 = trace s @ map Sys_getdents addrs \<and> length addrs = Suc (length bs))
        \<and> (\<exists>s1 addrs. getdents_loop (map GD_records bs) s = Inr s1
            \<and> trace s1 = trace s @ map Sys_getdents addrs \<and> length addrs = Suc (length bs))
        \<and> (\<exists>s1 addrs. getdents_loop (map GD_records bs @ GD_error e # rest) s = Inl (1, s1)
            \<and> trace s1 = trace s @ map Sys_getdents addrs @ [Perror ''getdents'' e]
            \<and> length addrs = Suc (length bs)))
   \<and> length (filter is_total_line (trace (snd (main w)))) \<le> 1
   \<and> (fst (main w) = 0 \<or> actions (trace (snd (main w))) \<noteq> [] \<longrightarrow>
        (\<exists>pre evs. trace (snd (main w))
            = pre @ Stderr (''Total files: ''
                @ dec_int (sint (word_of_nat (length (regular_names (enumerated (dents0 w)))) :: 32 word))
                @ newline) # evs
          \<and> actions pre = [] \<and> filter is_total_line pre = [] \<and> filter is_total_line evs = []))"
proof -
  have A: "ends_with_zero ds
      \<and> (\<exists>addrs. trace s' = trace s @ map Sys_getdents addrs
            \<and> length addrs = Suc (leading_batches ds))"
    if "getdents_loop ds s = Inr s'"
    using getdents_loop_calls[OF that] .
  have B: "(\<exists>s1 addrs. getdents_loop (map GD_records bs @ GD_records [] # rest) s = Inr s1
            \<and> trace s1 = trace s @ map Sys_getdents addrs \<and> length addrs = Suc (length bs))
        \<and> (\<exists>s1 addrs. getdents_loop (map GD_records bs) s = Inr s1
            \<and> trace s1 = trace s @ map Sys_getdents addrs \<and> length addrs = Suc (length bs))
        \<and> (\<exists>s1 addrs. getdents_loop (map GD_records bs @ GD_error e # rest) s = Inl (1, s1)
            \<and> trace s1 = trace s @ map Sys_getdents addrs @ [Perror ''getdents'' e]
            \<and> length addrs = Suc (length bs))"
    if h: "(\<forall>b\<in>set bs. b \<noteq> []) \<and> 2 * length bs + length (regular_names (concat bs)) \<le> mem s"
  proof -
    from getdents_loop_forward[of bs s] h obtain s1 addrs where
      f: "\<And>tail. getdents_loop (map GD_records bs @ tail) s = getdents_loop tail s1"
      and t: "trace s1 = trace s @ map Sys_getdents addrs" and n: "length addrs = length bs"
      by blast
    let ?z = "emit (Sys_getdents (buffer s1)) s1"
    have tz: "trace ?z = trace s @ map Sys_getdents (addrs @ [buffer s1])"
      using t by (simp add: emit_def)
    have nz: "length (addrs @ [buffer s1]) = Suc (length bs)" using n by simp
    have 1: "getdents_loop (map GD_records bs @ GD_records [] # rest) s = Inr ?z"
      unfolding f by simp
    have 2: "getdents_loop (map GD_records bs) s = Inr ?z"
      using f[of "[]"] by simp
    let ?x = "perror ''getdents'' (?z\<lparr>errno_var := e\<rparr>)"
    have 3: "getdents_loop (map GD_records bs @ GD_error e # rest) s = Inl (1, ?x)"
      unfolding f by (simp add: exit_with_def)
    have tx: "trace ?x = trace s @ map Sys_getdents (addrs @ [buffer s1]) @ [Perror ''getdents'' e]"
      using t by (simp add: perror_def emit_def)
    show ?thesis using 1 2 3 tz tx nz by blast
  qed
  show ?thesis
    using A B main_total_line[of w] unfolding total_line_def by blast
qed

theorem enumeration_ends_at_zero_witness:
  "getdents_loop (dents0 example_world) example_opened
      = Inr (last_state (getdents_loop (dents0 example_world) example_opened))
   \<and> ends_with_zero (dents0 example_world)
   \<and> 2 * length [[\<lparr>d_name = ''a'', d_type = 8\<rparr>]]
        + length (regular_names (concat [[\<lparr>d_name = ''a'', d_type = 8\<rparr>]])) \<le> mem example_opened
   \<and> (\<exists>s1 addrs. getdents_loop (map GD_records [[\<lparr>d_name = ''a'', d_type = 8\<rparr>]] @ GD_error 5 # []) example_opened
          = Inl (1, s1)
        \<and> trace s1 = trace example_opened @ map Sys_getdents addrs @ [Perror ''getdents'' 5]
        \<and> length addrs = 2)
   \<and> fst (main example_world) = 0
   \<and> (\<exists>pre evs. trace (snd (main example_world)) = pre @ Stderr (''Total files: '' @ ''3'' @ newline) # evs
        \<and> actions pre = [] \<and> filter is_total_line pre = [] \<and> filter is_total_line evs = [])"
proof -
  have 1: "getdents_loop (dents0 example_world) example_opened
      = Inr (last_state (getdents_loop (dents0 example_world) example_opened))"
    by code_simp
  have 2: "\<forall>b\<in>set [[\<lparr>d_name = ''a'', d_type = 8\<rparr>]]. b \<noteq> []" by simp
  have 3: "2 * length [[\<lparr>d_name = ''a'', d_type = 8\<rparr>]]
        + length (regular_names (concat [[\<lparr>d_name = ''a'', d_type = 8\<rparr>]])) \<le> mem example_opened"
    by code_simp
  have 4: "fst (main example_world) = 0" by code_simp
  have 5: "dec_int (sint (word_of_nat (length (regular_names (enumerated (dents0 example_world)))) :: 32 word))
      = ''3''"
    by code_simp
  note T = enumeration_ends_at_zero[of "dents0 example_world" example_opened
      "last_state (getdents_loop (dents0 example_world) example_opened)"
      "[[\<lparr>d_name = ''a'', d_type = 8\<rparr>]]" "[]" 5 example_world]
  have A: "ends_with_zero (dents0 example_world)"
    using T 1 by blast
  have B: "\<exists>s1 addrs. getdents_loop (map GD_records [[\<lparr>d_name = ''a'', d_type = 8\<rparr>]] @ GD_error 5 # []) example_opened
          = Inl (1, s1)
        \<and> trace s1 = trace example_opened @ map Sys_getdents addrs @ [Perror ''getdents'' 5]
        \<and> length addrs = Suc (length [[\<lparr>d_name = ''a'', d_type = 8\<rparr>]])"
    using T 2 3 by blast
  have C: "\<exists>pre evs. trace (snd (main example_world)) = pre @ Stderr (''Total files: '' @ ''3'' @ newline) # evs
        \<and> actions pre = [] \<and> filter is_total_line pre = [] \<and> filter is_total_line evs = []"
    using T 4 unfolding 5 by blast
  have l: "Suc (length [[\<lparr>d_name = ''a'', d_type = 8\<rparr>]]) = 2" by simp
  show ?thesis
    using 1 A 3 B[unfolded l] 4 C by (intro conjI)
qed

text \<open>
  C8, as the program behaves. Whatever the index holds and whatever the state before it,
  when the last part of the program (the two header lines, the walk, the completion notice
  and the teardown) completes, the trace has grown by exactly: the line with the total, the
  line naming the mode, the events of the walk over the names of the index in postorder,
  the completion notice \<open>Done\<close> on the secondary stream and the closing of the directory.
  The walk has acted once on every node. The notice carries no count and nothing is
  written after it: the number of visited entries is in \<open>delete_count\<close>, which has grown
  by the number of nodes. Without progress reporting the events of the walk are the
  actions alone; with it, every write of the walk to the secondary stream is a dot or the
  running count at a visit where it is a multiple of 50000. The index and the list of
  buffers are gone at the end.
\<close>

theorem completion_notice_without_count:
  assumes "walk_and_finish s = Inr s'"
  shows "let names = map (deref (heap s)) (postorder_keys (tree s));
             evs = visit_events (print_only s) (show_progress s) (delete_count s) names
         in trace s' = trace s @ [total_line (totalfiles s), performing_line (print_only s)]
                         @ evs @ [Stderr (''Done'' @ newline), Sys_close]
          \<and> actions evs = map (name_event (print_only s)) names
          \<and> (show_progress s = 0 \<longrightarrow> evs = map (name_event (print_only s)) names)
          \<and> (\<forall>x. Stderr x \<in> set evs \<longrightarrow>
                show_progress s \<noteq> 0
                \<and> (x = ''.'' \<or>
                   (\<exists>j. 0 < j \<and> j \<le> length names
                      \<and> (delete_count s + of_nat j) mod (progress_interval_minor * progress_interval_major) = 0
                      \<and> x = (if delete_count s + of_nat j \<noteq> 0 then newline else [])
                              @ dec (unat (delete_count s + of_nat j)))))
          \<and> delete_count s' = delete_count s + of_nat (length names)
          \<and> tree s' = Null \<and> dirent_buffers_list s' = []"
proof -
  let ?names = "map (deref (heap s)) (postorder_keys (tree s))"
  let ?evs = "visit_events (print_only s) (show_progress s) (delete_count s) ?names"
  have 1: "trace s' = trace s @ [total_line (totalfiles s), performing_line (print_only s)]
                         @ ?evs @ [Stderr (''Done'' @ newline), Sys_close]"
    by (rule walk_and_finish_exact[OF assms])
  have 2: "actions ?evs = map (name_event (print_only s)) ?names"
    by (rule actions_visit_events)
  have 3: "show_progress s = 0 \<longrightarrow> ?evs = map (name_event (print_only s)) ?names"
    by (simp add: visit_events_quiet)
  have 4: "\<forall>x. Stderr x \<in> set ?evs \<longrightarrow>
                show_progress s \<noteq> 0
                \<and> (x = ''.'' \<or>
                   (\<exists>j. 0 < j \<and> j \<le> length ?names
                      \<and> (delete_count s + of_nat j) mod (progress_interval_minor * progress_interval_major) = 0
                      \<and> x = (if delete_count s + of_nat j \<noteq> 0 then newline else [])
                              @ dec (unat (delete_count s + of_nat j))))"
    by (intro allI impI) (rule visit_events_stderr)
  from walk_and_finish_Inr[OF assms]
  have "delete_count s' = delete_count s + of_nat (length (postorder_keys (tree s)))"
    by (elim exE conjE)
  then have 5: "delete_count s' = delete_count s + of_nat (length ?names)"
    by (simp only: length_map)
  have 6: "tree s' = Null" and 7: "dirent_buffers_list s' = []"
    using walk_and_finish_teardown[OF assms] by (rule conjunct1, rule conjunct2)
  show ?thesis
    unfolding Let_def by (intro conjI) (rule 1 2 3 4 5 6 7)+
qed


theorem completion_notice_without_count_witness:
  "walk_and_finish (last_state (pre_walk degenerate_world)) = Inr (snd (main degenerate_world))
   \<and> trace (snd (main degenerate_world)) =
       trace (last_state (pre_walk degenerate_world))
       @ [Stderr (''Total files: 4'' @ newline), Stderr (''Performing print...'' @ newline),
          Stdout (''a'' @ newline), Stdout (''c'' @ newline), Stdout (''b'' @ newline),
          Stderr (''Done'' @ newline), Sys_close]
   \<and> delete_count (snd (main degenerate_world)) = 3
   \<and> tree (snd (main degenerate_world)) = Null
   \<and> dirent_buffers_list (snd (main degenerate_world)) = []
   \<and> walk_and_finish example_state_progress
       = Inr (last_state (walk_and_finish example_state_progress))
   \<and> trace (last_state (walk_and_finish example_state_progress)) =
       [Stderr (''Total files: 3'' @ newline), Stderr (''Performing print...'' @ newline),
        Stdout (''a'' @ newline), Sleep 1, Stderr (newline @ ''50000''),
        Stdout (''c'' @ newline), Stdout (''b'' @ newline),
        Stderr (''Done'' @ newline), Sys_close]
   \<and> (\<exists>j. 0 < j \<and> j \<le> 3
        \<and> (delete_count example_state_progress + of_nat j)
             mod (progress_interval_minor * progress_interval_major) = 0
        \<and> newline @ ''50000'' =
            (if delete_count example_state_progress + of_nat j \<noteq> 0 then newline else [])
              @ dec (unat (delete_count example_state_progress + of_nat j)))
   \<and> delete_count (last_state (walk_and_finish example_state_progress)) = 50002"
proof -
  let ?s = "last_state (pre_walk degenerate_world)"
  let ?s' = "snd (main degenerate_world)"
  let ?p = "example_state_progress"
  let ?p' = "last_state (walk_and_finish example_state_progress)"
  have h: "walk_and_finish ?s = Inr ?s'" by code_simp
  have n: "map (deref (heap ?s)) (postorder_keys (tree ?s)) = [''a'', ''c'', ''b'']"
    by code_simp
  have e: "visit_events (print_only ?s) (show_progress ?s) (delete_count ?s) [''a'', ''c'', ''b'']
      = [Stdout (''a'' @ newline), Stdout (''c'' @ newline), Stdout (''b'' @ newline)]"
    by code_simp
  have l: "[total_line (totalfiles ?s), performing_line (print_only ?s)]
      = [Stderr (''Total files: 4'' @ newline), Stderr (''Performing print...'' @ newline)]"
    by code_simp
  have c: "delete_count ?s + of_nat (length [''a'', ''c'', ''b'']) = 3" by code_simp
  note T = completion_notice_without_count[OF h, unfolded Let_def n e l c]
  have 1: "trace ?s' = trace ?s
       @ [Stderr (''Total files: 4'' @ newline), Stderr (''Performing print...'' @ newline),
          Stdout (''a'' @ newline), Stdout (''c'' @ newline), Stdout (''b'' @ newline),
          Stderr (''Done'' @ newline), Sys_close]"
    using T[THEN conjunct1] by simp
  have 2: "delete_count ?s' = 3" and 3: "tree ?s' = Null" and 4: "dirent_buffers_list ?s' = []"
    using T by blast+
  have pp: "print_only ?p = 1" "show_progress ?p = 1" "delete_count ?p = 49999"
    by (simp_all add: example_state_progress_def)
  have hp: "walk_and_finish ?p = Inr ?p'"
    by (rule walk_and_finish_report) (simp add: pp)
  have np: "map (deref (heap ?p)) (postorder_keys (tree ?p)) = [''a'', ''c'', ''b'']"
    by code_simp
  have ep: "visit_events (print_only ?p) (show_progress ?p) (delete_count ?p) [''a'', ''c'', ''b'']
      = [Stdout (''a'' @ newline), Sleep 1, Stderr (newline @ ''50000''),
         Stdout (''c'' @ newline), Stdout (''b'' @ newline)]"
    unfolding pp
    by (simp add: progress_events_50000 progress_events_50001 progress_events_50002 name_event_def)
  have lp: "[total_line (totalfiles ?p), performing_line (print_only ?p)]
      = [Stderr (''Total files: 3'' @ newline), Stderr (''Performing print...'' @ newline)]"
    by code_simp
  have tp: "trace ?p = []" by code_simp
  have l3: "length [''a'', ''c'', ''b''] = 3" by simp
  note P = completion_notice_without_count[OF hp, unfolded Let_def np ep lp tp l3]
  have 5: "trace ?p' =
       [Stderr (''Total files: 3'' @ newline), Stderr (''Performing print...'' @ newline),
        Stdout (''a'' @ newline), Sleep 1, Stderr (newline @ ''50000''),
        Stdout (''c'' @ newline), Stdout (''b'' @ newline),
        Stderr (''Done'' @ newline), Sys_close]"
    using P[THEN conjunct1] by simp
  have m: "Stderr (newline @ ''50000'') \<in> set [Stdout (''a'' @ newline), Sleep 1, Stderr (newline @ ''50000''),
         Stdout (''c'' @ newline), Stdout (''b'' @ newline)]"
    by simp
  have d: "newline @ ''50000'' \<noteq> ''.''" by (simp add: newline_def)
  have q: "\<forall>x. Stderr x \<in> set [Stdout (''a'' @ newline), Sleep 1, Stderr (newline @ ''50000''),
         Stdout (''c'' @ newline), Stdout (''b'' @ newline)] \<longrightarrow>
                show_progress ?p \<noteq> 0
                \<and> (x = ''.'' \<or>
                   (\<exists>j. 0 < j \<and> j \<le> 3
                      \<and> (delete_count ?p + of_nat j) mod (progress_interval_minor * progress_interval_major) = 0
                      \<and> x = (if delete_count ?p + of_nat j \<noteq> 0 then newline else [])
                              @ dec (unat (delete_count ?p + of_nat j))))"
    using P by (elim conjE)
  from q[rule_format, OF m] d obtain j where j: "0 < j" "j \<le> 3"
    "(delete_count ?p + of_nat j) mod (progress_interval_minor * progress_interval_major) = 0"
    "newline @ ''50000'' = (if delete_count ?p + of_nat j \<noteq> 0 then newline else [])
                              @ dec (unat (delete_count ?p + of_nat j))"
    by (elim conjE disjE exE) (simp, rule that)
  have 6: "\<exists>j. 0 < j \<and> j \<le> 3
        \<and> (delete_count ?p + of_nat j) mod (progress_interval_minor * progress_interval_major) = 0
        \<and> newline @ ''50000'' = (if delete_count ?p + of_nat j \<noteq> 0 then newline else [])
                              @ dec (unat (delete_count ?p + of_nat j))"
    by (intro exI[of _ j] conjI) (rule j)+
  have "delete_count ?p' = delete_count ?p + of_nat 3" using P by (elim conjE)
  then have 7: "delete_count ?p' = 50002" by (simp add: pp)
  show ?thesis
    by (intro conjI) (rule h 1 2 3 4 hp 5 6 7)+
qed

text \<open>
  The run on a directory whose enumeration returns the name \<open>a\<close> twice: three entries
  are visited, the only number on the secondary stream is the 4 of the records counted
  before the walk, and \<open>Done\<close> follows the last name directly.
\<close>

theorem final_count_not_reported:
  "delete_count (snd (main degenerate_world)) = 3
   \<and> trace (snd (main degenerate_world)) =
       [Sys_access ''/srv/spool'', Sys_lstat ''/srv/spool'', Sys_open ''/srv/spool'', Sys_fchdir,
        Sys_getdents 0, Sys_getdents 1, Sys_getdents 2,
        Stderr (''Total files: 4'' @ newline), Stderr (''Performing print...'' @ newline),
        Stdout (''a'' @ newline), Stdout (''c'' @ newline), Stdout (''b'' @ newline),
        Stderr (''Done'' @ newline), Sys_close]"
  by code_simp

text \<open>
  C9. Two runs in report mode that both end with status 0 and enumerate the same
  sequence of records write the same primary stream, whatever else differs between them
  (the program name and the spelling of the path, the progress flag, the memory available,
  the cut of the records into batches, the files and permissions of the directory).
\<close>

theorem report_mode_deterministic:
  assumes "fst (main w1) = 0" and "fst (main w2) = 0"
      and "environ w1 ''DENTLS_DELETE'' = None" and "environ w2 ''DENTLS_DELETE'' = None"
      and "enumerated (dents0 w1) = enumerated (dents0 w2)"
  shows "stdout_of (trace (snd (main w1))) = stdout_of (trace (snd (main w2)))"
  using main_outputs(1)[OF assms(1)] main_outputs(1)[OF assms(2)] assms(3-5)
  by (simp add: mode_word_def indexed_names_def)

theorem report_mode_deterministic_witness:
  "fst (main example_world) = 0 \<and> fst (main example_world_one_batch) = 0
   \<and> environ example_world ''DENTLS_DELETE'' = None
   \<and> environ example_world_one_batch ''DENTLS_DELETE'' = None
   \<and> enumerated (dents0 example_world) = enumerated (dents0 example_world_one_batch)
   \<and> stdout_of (trace (snd (main example_world)))
       = stdout_of (trace (snd (main example_world_one_batch)))"
proof -
  have 1: "fst (main example_world) = 0" by code_simp
  have 2: "fst (main example_world_one_batch) = 0" by code_simp
  have 3: "environ example_world ''DENTLS_DELETE'' = None" by (simp add: example_world_def)
  have 4: "environ example_world_one_batch ''DENTLS_DELETE'' = None"
    by (simp add: example_world_one_batch_def)
  have 5: "enumerated (dents0 example_world) = enumerated (dents0 example_world_one_batch)"
    by (simp add: example_world_def example_world_one_batch_def)
  from report_mode_deterministic[OF 1 2 3 4 5] show ?thesis
    using 1 2 3 4 5 by simp
qed

text \<open>
  C10. A run that ends with status 0: the status line reports the number of enumerated
  regular-file records (as the 32-bit \<^verbatim>\<open>int\<close> it is counted in, equal to the number itself
  below \<open>2^31\<close>), while the names printed or unlinked are pairwise distinct and as many as
  there are distinct names among those records; when a name occurs twice the reported
  total is therefore strictly larger than the number of names acted on.
\<close>

theorem total_counts_every_record:
  assumes "fst (main w) = 0"
  shows "Stderr (''Total files: ''
            @ dec_int (sint (word_of_nat (length (regular_names (enumerated (dents0 w)))) :: 32 word))
            @ newline) \<in> set (trace (snd (main w)))
       \<and> distinct (stdout_of (trace (snd (main w)))) \<and> distinct (unlinked (trace (snd (main w))))
       \<and> length (stdout_of (trace (snd (main w)))) + length (unlinked (trace (snd (main w))))
           = card (set (regular_names (enumerated (dents0 w))))
       \<and> (\<not> distinct (regular_names (enumerated (dents0 w))) \<longrightarrow>
            card (set (regular_names (enumerated (dents0 w))))
              < length (regular_names (enumerated (dents0 w))))
       \<and> (length (regular_names (enumerated (dents0 w))) < 2 ^ 31 \<longrightarrow>
            sint (word_of_nat (length (regular_names (enumerated (dents0 w)))) :: 32 word)
              = int (length (regular_names (enumerated (dents0 w)))))"
proof -
  let ?rn = "regular_names (enumerated (dents0 w))"
  from main_success_trace[OF assms] obtain bs evs where
    t: "trace (snd (main w)) =
        [Sys_access (argv w ! 1), Sys_lstat (argv w ! 1), Sys_open (argv w ! 1), Sys_fchdir]
        @ map Sys_getdents bs
        @ [total_line (of_nat (length ?rn)), performing_line (mode_word w)]
        @ evs @ [Stderr (''Done'' @ newline), Sys_close]"
    by blast
  have 1: "Stderr (''Total files: '' @ dec_int (sint (word_of_nat (length ?rn) :: 32 word)) @ newline)
      \<in> set (trace (snd (main w)))"
    unfolding t by (simp add: total_line_def)
  note o = main_outputs[OF assms]
  have 2: "distinct (stdout_of (trace (snd (main w))))"
    unfolding o using distinct_indexed_names[of w] by (simp add: distinct_map inj_on_def)
  have 3: "distinct (unlinked (trace (snd (main w))))"
    unfolding o using distinct_indexed_names[of w] by simp
  have "length (indexed_names w) = card (set ?rn)"
    using distinct_card[OF distinct_indexed_names[of w]] by (simp add: set_indexed_names)
  then have 4: "length (stdout_of (trace (snd (main w)))) + length (unlinked (trace (snd (main w))))
           = card (set ?rn)"
    unfolding o by simp
  show ?thesis
    using 1 2 3 4 card_set_less[of ?rn] sint_of_nat_32[of "length ?rn"] by blast
qed

theorem total_counts_every_record_witness:
  "fst (main degenerate_world) = 0
   \<and> regular_names (enumerated (dents0 degenerate_world)) = [''b'', ''a'', ''a'', ''c'']
   \<and> Stderr (''Total files: 4'' @ newline) \<in> set (trace (snd (main degenerate_world)))
   \<and> stdout_of (trace (snd (main degenerate_world))) = [''a'' @ newline, ''c'' @ newline, ''b'' @ newline]
   \<and> length (stdout_of (trace (snd (main degenerate_world))))
      + length (unlinked (trace (snd (main degenerate_world)))) = 3
   \<and> card (set (regular_names (enumerated (dents0 degenerate_world))))
      < length (regular_names (enumerated (dents0 degenerate_world)))"
proof -
  have 1: "fst (main degenerate_world) = 0" by code_simp
  have 2: "regular_names (enumerated (dents0 degenerate_world)) = [''b'', ''a'', ''a'', ''c'']"
    by code_simp
  have 3: "stdout_of (trace (snd (main degenerate_world))) = [''a'' @ newline, ''c'' @ newline, ''b'' @ newline]"
    by code_simp
  have 4: "dec_int (sint (4 :: 32 word)) = ''4''" by code_simp
  have 5: "card (set [''b'', ''a'', ''a'', ''c'']) = 3" by code_simp
  have 6: "\<not> distinct [''b'', ''a'', ''a'', ''c'']" by simp
  from total_counts_every_record[OF 1] show ?thesis
    unfolding 2 using 1 3 4 5 6 by simp
qed

end
